theory Spec2Isabelle
  imports Main "HOL-Library.Sublist"
begin

section \<open>Strings\<close>

text \<open>
  The plugin \<^verbatim>\<open>rehypeSpotlight\<close> works on JavaScript strings. They are modelled as
  \<^typ>\<open>string\<close>, one \<^typ>\<open>char\<close> per code unit, which covers the code units
  U+0000 to U+00FF. Of the characters that \<^verbatim>\<open>trim()\<close> and the regular expression class
  \<^verbatim>\<open>\s\<close> treat as white space, that range holds tab, line feed, vertical tab, form feed,
  carriage return, space and the no-break space U+00A0.
\<close>

definition startMarker :: string where
  "startMarker = ''// spotlight-start''"

definition endMarker :: string where
  "endMarker = ''// spotlight-end''"

definition newline :: string where
  "newline = [CHR 0x0A]"

definition nbsp :: string where
  "nbsp = [CHR 0xA0]"

definition isSpace :: "char \<Rightarrow> bool" where
  "isSpace c = (c \<in> set [CHR 0x09, CHR 0x0A, CHR 0x0B, CHR 0x0C, CHR 0x0D, CHR 0x20, CHR 0xA0])"

text \<open>\<^verbatim>\<open>s.trim()\<close>\<close>

definition trim :: "string \<Rightarrow> string" where
  "trim s = rev (dropWhile isSpace (rev (dropWhile isSpace s)))"

text \<open>\<^verbatim>\<open>s.includes(m)\<close>: \<open>m\<close> occurs in \<open>s\<close> as a contiguous substring.\<close>

definition str_includes :: "string \<Rightarrow> string \<Rightarrow> bool" where
  "str_includes s m = sublist m s"

text \<open>
  \<^verbatim>\<open>s.replace(/M\s*/, "")\<close> for a literal, non-empty \<open>M\<close>: the regular expression has
  no \<^verbatim>\<open>g\<close> flag, so only the leftmost match is deleted; the match is \<open>M\<close> followed by the
  longest run of white space.
\<close>

fun replaceMarker :: "string \<Rightarrow> string \<Rightarrow> string" where
  "replaceMarker m [] = []"
| "replaceMarker m (c # cs) =
     (if prefix m (c # cs) then dropWhile isSpace (drop (length m) (c # cs))
      else c # replaceMarker m cs)"

section \<open>Document trees\<close>

text \<open>
  A tree is built from text nodes (\<^verbatim>\<open>{type: "text", value}\<close>) and element nodes
  (\<^verbatim>\<open>{type: "element", tagName, properties: {className}, children}\<close>).
  \<^verbatim>\<open>properties.className\<close> may be absent (\<open>None\<close>). The plugin reads and writes no
  other property, so the rest of the property bag is left out.
\<close>

datatype node =
    Text (tvalue: string)
  | Element (tagName: string) (className: "string list option") (children: "node list")

datatype error = TypeError

text \<open>
  \<^verbatim>\<open>getText\<close>, \<^verbatim>\<open>hasMarker\<close> and \<^verbatim>\<open>transformNode\<close> probe \<^verbatim>\<open>node.value\<close> for
  truthiness: an empty string is falsy, and a text node has no \<^verbatim>\<open>children\<close>.
\<close>

fun getText :: "node \<Rightarrow> string" where
  "getText (Text v) = (if v \<noteq> [] then v else [])"
| "getText (Element t c ks) = concat (map getText ks)"

fun hasMarker :: "node \<Rightarrow> bool" where
  "hasMarker (Text v) =
     (if v \<noteq> [] then str_includes v startMarker \<or> str_includes v endMarker else False)"
| "hasMarker (Element t c ks) = list_ex hasMarker ks"

fun transformNode :: "string \<Rightarrow> node \<Rightarrow> node" where
  "transformNode m (Text v) = (if v \<noteq> [] then Text (replaceMarker m v) else Text v)"
| "transformNode m (Element t c ks) = Element t c (map (transformNode m) ks)"

text \<open>The filter that selects the line spans among the children of the code element.\<close>

fun isLine :: "node \<Rightarrow> bool" where
  "isLine (Text v) = False"
| "isLine (Element t c ks) =
     (t = ''span'' \<and> (case c of None \<Rightarrow> False | Some cl \<Rightarrow> ''line'' \<in> set cl))"

fun isCode :: "node \<Rightarrow> bool" where
  "isCode (Text v) = False"
| "isCode (Element t c ks) = (t = ''code'')"

text \<open>\<^verbatim>\<open>n.type === "text" && n.value === "\n"\<close>\<close>

fun isNewlineText :: "node \<Rightarrow> bool" where
  "isNewlineText (Text v) = (v = newline)"
| "isNewlineText (Element t c ks) = False"

text \<open>
  \<^verbatim>\<open>span.properties.className = [...span.properties.className, c]\<close>. Spreading an absent
  class list, or reading \<^verbatim>\<open>properties\<close> of a text node, raises a TypeError.
\<close>

fun addClass :: "string \<Rightarrow> node \<Rightarrow> error + node" where
  "addClass c (Text v) = Inl TypeError"
| "addClass c (Element t None ks) = Inl TypeError"
| "addClass c (Element t (Some cl) ks) = Inr (Element t (Some (cl @ [c])) ks)"

text \<open>\<^verbatim>\<open>span.children = [{ type: "text", value: "\u00A0" }]\<close>\<close>

fun setPlaceholder :: "node \<Rightarrow> node" where
  "setPlaceholder (Text v) = Text v"
| "setPlaceholder (Element t c ks) = Element t c [Text nbsp]"

text \<open>
  The values of the text nodes of a tree, in document order. The plugin has no such
  function; properties about every text node of a line are stated with it.
\<close>

fun textValues :: "node \<Rightarrow> string list" where
  "textValues (Text v) = [v]"
| "textValues (Element t c ks) = concat (map textValues ks)"

section \<open>The children of a code element as a store\<close>

text \<open>
  The plugin keeps two arrays of references to the same node objects
  (\<^verbatim>\<open>codeEl.children\<close> and \<^verbatim>\<open>lineSpans\<close>), mutates the objects through either, tags them
  with an ad-hoc \<^verbatim>\<open>shouldRemove\<close> property and looks them up by identity with
  \<^verbatim>\<open>indexOf\<close>. The model names each child object by its position in the child list the
  code element has on entry. The store holds, per object, its current contents and its
  \<^verbatim>\<open>shouldRemove\<close> flag; the two arrays are lists of object names. No node of the input
  carries a \<^verbatim>\<open>shouldRemove\<close> property, and no object occurs twice in a child list.
\<close>

record obj =
  node_of :: node
  shouldRemove :: bool

type_synonym store = "obj list"

text \<open>\<^verbatim>\<open>xs.indexOf(x)\<close>, \<open>-1\<close> when absent, and \<^verbatim>\<open>xs[i]\<close>, undefined out of range.\<close>

fun indexOf :: "'a list \<Rightarrow> 'a \<Rightarrow> int" where
  "indexOf [] x = - 1"
| "indexOf (y # ys) x =
     (if y = x then 0 else (let r = indexOf ys x in if r < 0 then - 1 else r + 1))"

definition at :: "'a list \<Rightarrow> int \<Rightarrow> 'a option" where
  "at xs i = (if 0 \<le> i \<and> i < int (length xs) then Some (xs ! nat i) else None)"

definition mark :: "nat \<Rightarrow> store \<Rightarrow> store" where
  "mark i os = os[i := (os ! i)\<lparr>shouldRemove := True\<rparr>]"

definition setNode :: "nat \<Rightarrow> node \<Rightarrow> store \<Rightarrow> store" where
  "setNode i n os = os[i := (os ! i)\<lparr>node_of := n\<rparr>]"

text \<open>
  \<^verbatim>\<open>if (n && n.type === "text" && n.value === "\n") n.shouldRemove = true\<close> for a neighbour
  \<open>n\<close> that may be undefined.
\<close>

definition markIfNewline :: "nat option \<Rightarrow> store \<Rightarrow> store" where
  "markIfNewline p os =
     (case p of
        None \<Rightarrow> os
      | Some j \<Rightarrow> if isNewlineText (node_of (os ! j)) then mark j os else os)"

text \<open>\<^verbatim>\<open>codeEl.children.filter((child) => !child.shouldRemove)\<close>\<close>

definition unremoved :: "store \<Rightarrow> nat list \<Rightarrow> nat list" where
  "unremoved os kids = filter (\<lambda>j. \<not> shouldRemove (os ! j)) kids"

section \<open>The latest revision of the plugin\<close>

text \<open>Lines 18 to 33: the trailing blank line and the newline before it are tagged.\<close>

definition trailingCleanup :: "nat list \<Rightarrow> nat list \<Rightarrow> store \<Rightarrow> store" where
  "trailingCleanup kids lineSpans os =
     (if lineSpans = [] then os
      else
        let lastSpan = last lineSpans;
            lastText = getText (node_of (os ! lastSpan))
        in if trim lastText = [] then
             let os1 = mark lastSpan os;
                 lastSpanIndex = indexOf kids lastSpan
             in markIfNewline (at kids (lastSpanIndex - 1)) os1
           else os)"

text \<open>
  Lines 57 to 106: the body of \<^verbatim>\<open>lineSpans.forEach\<close> for the line span \<open>i\<close>, on the
  store and the flag \<^verbatim>\<open>isSpotlighting\<close>. \<open>kids\<close> is \<^verbatim>\<open>codeEl.children\<close>, which the
  loop does not assign.
\<close>

definition classify :: "nat list \<Rightarrow> store \<times> bool \<Rightarrow> nat \<Rightarrow> error + store \<times> bool" where
  "classify kids st i =
     (let os = fst st;
          isSpotlighting = snd st;
          span = node_of (os ! i);
          text = getText span
      in if trim text = startMarker \<or> trim text = endMarker then
           let os1 = mark i os;
               os2 = markIfNewline (at kids (indexOf kids i + 1)) os1
           in Inr (os2, str_includes text ''spotlight-start'')
         else if str_includes text startMarker then
           Inr (setNode i (transformNode startMarker span) os, True)
         else if str_includes text endMarker then
           Inr (setNode i (transformNode endMarker span) os, False)
         else if isSpotlighting then
           (case addClass ''spotlight'' span of
              Inl e \<Rightarrow> Inl e
            | Inr span' \<Rightarrow>
                Inr (setNode i (if trim text = [] then setPlaceholder span' else span') os,
                     isSpotlighting))
         else
           (case addClass ''dim'' span of
              Inl e \<Rightarrow> Inl e
            | Inr span' \<Rightarrow> Inr (setNode i span' os, isSpotlighting)))"

fun forEachLine :: "nat list \<Rightarrow> nat list \<Rightarrow> store \<times> bool \<Rightarrow> error + store \<times> bool" where
  "forEachLine kids [] st = Inr st"
| "forEachLine kids (i # lineSpans) st =
     (case classify kids st i of
        Inl e \<Rightarrow> Inl e
      | Inr st' \<Rightarrow> forEachLine kids lineSpans st')"

text \<open>\<^verbatim>\<open>[...(codeEl.properties.className || []), "has-spotlights"]\<close>\<close>

definition withHasSpotlights :: "string list option \<Rightarrow> string list option" where
  "withHasSpotlights c = Some ((case c of None \<Rightarrow> [] | Some cl \<Rightarrow> cl) @ [''has-spotlights''])"

text \<open>
  Lines 37 to 108, for the line spans \<open>lineSpans\<close>, on the store and child list that the
  cleanup leaves: the marker test, the loop and the final filter. The result is the
  store, the new \<^verbatim>\<open>codeEl.children\<close> and whether \<^verbatim>\<open>hasSpotlights\<close> held.
\<close>

definition spotlightPass ::
  "nat list \<Rightarrow> store \<Rightarrow> nat list \<Rightarrow> error + store \<times> nat list \<times> bool" where
  "spotlightPass lineSpans os kids =
     (let hasSpotlights = list_ex (\<lambda>i. hasMarker (node_of (os ! i))) lineSpans
      in if hasSpotlights then
           (case forEachLine kids lineSpans (os, False) of
              Inl e \<Rightarrow> Inl e
            | Inr st \<Rightarrow> Inr (fst st, unremoved (fst st) kids, True))
         else Inr (os, kids, False))"

definition initStore :: "node list \<Rightarrow> store" where
  "initStore ks = map (\<lambda>k. \<lparr>node_of = k, shouldRemove = False\<rparr>) ks"

definition lineSpansOf :: "node list \<Rightarrow> nat list" where
  "lineSpansOf ks = filter (\<lambda>i. isLine (ks ! i)) [0..<length ks]"

text \<open>
  Lines 11 to 109, on the children \<open>ks\<close> of the code element. \<^verbatim>\<open>lineSpans\<close> is computed
  once, before the cleanup, and is not computed again after it.
\<close>

definition cleanedStore :: "node list \<Rightarrow> store" where
  "cleanedStore ks = trailingCleanup [0..<length ks] (lineSpansOf ks) (initStore ks)"

definition cleanedKids :: "node list \<Rightarrow> nat list" where
  "cleanedKids ks = unremoved (cleanedStore ks) [0..<length ks]"

definition blockPass :: "node list \<Rightarrow> error + store \<times> nat list \<times> bool" where
  "blockPass ks = spotlightPass (lineSpansOf ks) (cleanedStore ks) (cleanedKids ks)"

text \<open>
  The code element after the pass: its class list gains \<^verbatim>\<open>has-spotlights\<close> when
  \<^verbatim>\<open>hasSpotlights\<close> held, and its children are the objects that \<^verbatim>\<open>codeEl.children\<close>
  names, with their current contents.
\<close>

definition rebuild :: "string \<Rightarrow> string list option \<Rightarrow> store \<times> nat list \<times> bool \<Rightarrow> node" where
  "rebuild t c r =
     (case r of (os, kids, hasSpotlights) \<Rightarrow>
        Element t (if hasSpotlights then withHasSpotlights c else c)
          (map (\<lambda>j. node_of (os ! j)) kids))"

fun processCode :: "node \<Rightarrow> error + node" where
  "processCode (Text v) = Inl TypeError"
| "processCode (Element t c ks) =
     (case blockPass ks of Inl e \<Rightarrow> Inl e | Inr r \<Rightarrow> Inr (rebuild t c r))"

text \<open>
  The code element is mutated in place: in the functional model the first child that
  passes the test is replaced by its new contents.
\<close>

fun replaceFirst :: "('a \<Rightarrow> bool) \<Rightarrow> 'a \<Rightarrow> 'a list \<Rightarrow> 'a list" where
  "replaceFirst p y [] = []"
| "replaceFirst p y (x # xs) = (if p x then y # xs else x # replaceFirst p y xs)"

text \<open>
  Lines 6 to 112: the visitor that \<^verbatim>\<open>visit\<close> calls on every element. All revisions share
  lines 6 to 10 and differ in what they do to the code element, which is the parameter
  \<open>process\<close>.
\<close>

fun visitPre :: "(node \<Rightarrow> error + node) \<Rightarrow> node \<Rightarrow> error + node" where
  "visitPre process (Text v) = Inr (Text v)"
| "visitPre process (Element t c ks) =
     (if t = ''pre'' then
        (case filter isCode ks of
           [] \<Rightarrow> Inr (Element t c ks)
         | codeEl # _ \<Rightarrow>
             (case process codeEl of
                Inl e \<Rightarrow> Inl e
              | Inr codeEl' \<Rightarrow> Inr (Element t c (replaceFirst isCode codeEl' ks))))
      else Inr (Element t c ks))"

definition visitor :: "node \<Rightarrow> error + node" where
  "visitor = visitPre processCode"

section \<open>The earliest revision of the plugin\<close>

text \<open>
  \<^verbatim>\<open>src/plugins/rehype-spotlight.mjs\<close>. Its \<^verbatim>\<open>transformNode\<close> strips both markers from a
  text value, drops the children that end up blank and reports whether the node itself
  ended up empty.
\<close>

fun transformNodeEarly :: "node \<Rightarrow> node \<times> bool" where
  "transformNodeEarly (Text v) =
     (if v \<noteq> [] then
        (let v' = replaceMarker endMarker (replaceMarker startMarker v)
         in (Text v', trim v' = []))
      else (Text v, False))"
| "transformNodeEarly (Element t c ks) =
     (let ks' = map fst (filter (\<lambda>r. \<not> snd r) (map transformNodeEarly ks))
      in (Element t c ks', ks' = []))"

text \<open>\<^verbatim>\<open>span.children = []\<close>\<close>

fun clearChildren :: "node \<Rightarrow> node" where
  "clearChildren (Text v) = Text v"
| "clearChildren (Element t c ks) = Element t c []"

text \<open>
  The body of \<^verbatim>\<open>lineSpans.forEach\<close>, lines 29 to 64: the line is classified first
  (lines 36 to 45), then its text nodes are transformed (lines 47 to 63). This revision
  sets no \<^verbatim>\<open>shouldRemove\<close> flag, so the store holds the nodes only.
\<close>

definition classifyFirst :: "node \<Rightarrow> bool \<Rightarrow> error + node \<times> bool" where
  "classifyFirst span isSpotlighting =
     (let text = getText span
      in if str_includes text startMarker then Inr (span, True)
         else if str_includes text endMarker then Inr (span, False)
         else if isSpotlighting then
           (case addClass ''spotlight'' span of
              Inl e \<Rightarrow> Inl e
            | Inr span' \<Rightarrow> Inr (span', isSpotlighting))
         else
           (case addClass ''dim'' span of
              Inl e \<Rightarrow> Inl e
            | Inr span' \<Rightarrow> Inr (span', isSpotlighting)))"

definition thenTransform :: "node \<Rightarrow> node" where
  "thenTransform span =
     (let r = transformNodeEarly span
      in if snd r then clearChildren (fst r) else fst r)"

definition classifyEarly :: "node list \<times> bool \<Rightarrow> nat \<Rightarrow> error + node list \<times> bool" where
  "classifyEarly st i =
     (case classifyFirst (fst st ! i) (snd st) of
        Inl e \<Rightarrow> Inl e
      | Inr r \<Rightarrow> Inr ((fst st)[i := thenTransform (fst r)], snd r))"

fun forEachLineEarly :: "nat list \<Rightarrow> node list \<times> bool \<Rightarrow> error + node list \<times> bool" where
  "forEachLineEarly [] st = Inr st"
| "forEachLineEarly (i # lineSpans) st =
     (case classifyEarly st i of
        Inl e \<Rightarrow> Inl e
      | Inr st' \<Rightarrow> forEachLineEarly lineSpans st')"

text \<open>The final filter, lines 67 to 74, drops every span that has no children.\<close>

fun isEmptySpan :: "node \<Rightarrow> bool" where
  "isEmptySpan (Text v) = False"
| "isEmptySpan (Element t c ks) = (t = ''span'' \<and> ks = [])"

definition blockPassEarly :: "node list \<Rightarrow> error + node list \<times> bool" where
  "blockPassEarly ks =
     (let lineSpans = lineSpansOf ks;
          hasSpotlights = list_ex (\<lambda>i. hasMarker (ks ! i)) lineSpans
      in if hasSpotlights then
           (case forEachLineEarly lineSpans (ks, False) of
              Inl e \<Rightarrow> Inl e
            | Inr st \<Rightarrow> Inr (filter (\<lambda>k. \<not> isEmptySpan k) (fst st), True))
         else Inr (ks, False))"

fun processCodeEarly :: "node \<Rightarrow> error + node" where
  "processCodeEarly (Text v) = Inl TypeError"
| "processCodeEarly (Element t c ks) =
     (case blockPassEarly ks of
        Inl e \<Rightarrow> Inl e
      | Inr r \<Rightarrow> Inr (Element t (if snd r then withHasSpotlights c else c) (fst r)))"

definition visitorEarly :: "node \<Rightarrow> error + node" where
  "visitorEarly = visitPre processCodeEarly"

section \<open>The tree walk\<close>

text \<open>
  \<^verbatim>\<open>visit(tree, "element", visitor)\<close> of \<^verbatim>\<open>unist-util-visit\<close> calls the visitor on an
  element and then walks the children that the element has after the call. The visitor
  can replace the children of a line by a placeholder, so the walk is not structural
  on the input; it terminates because no visitor makes a tree higher.
\<close>

fun height :: "node \<Rightarrow> nat" where
  "height (Text v) = 0"
| "height (Element t c ks) = Suc (Max (set (0 # map height ks)))"

fun mapE :: "('a \<Rightarrow> error + 'b) \<Rightarrow> 'a list \<Rightarrow> error + 'b list" where
  "mapE f [] = Inr []"
| "mapE f (x # xs) =
     (case f x of
        Inl e \<Rightarrow> Inl e
      | Inr y \<Rightarrow> (case mapE f xs of Inl e \<Rightarrow> Inl e | Inr ys \<Rightarrow> Inr (y # ys)))"

section \<open>Notions for stating the properties\<close>

text \<open>
  None of the following is in the plugin. \<open>withClass c n\<close> is the element \<open>n\<close> with the class
  \<open>c\<close> appended to its class list, which is what \<open>addClass\<close> returns when it does not
  raise.
\<close>

fun withClass :: "string \<Rightarrow> node \<Rightarrow> node" where
  "withClass c (Element t (Some cl) ks) = Element t (Some (cl @ [c])) ks"
| "withClass c n = n"

text \<open>
  \<open>lineOutcome k o\<close>: the object \<open>o\<close> is what the loop makes of a line whose contents were
  \<open>k\<close> when the loop reached it.
\<close>

definition lineOutcome :: "node \<Rightarrow> obj \<Rightarrow> bool" where
  "lineOutcome k ob =
     (if trim (getText k) = startMarker \<or> trim (getText k) = endMarker then shouldRemove ob
      else if str_includes (getText k) startMarker then
        node_of ob = transformNode startMarker k
      else if str_includes (getText k) endMarker then
        node_of ob = transformNode endMarker k
      else
        node_of ob = (if trim (getText k) = [] then setPlaceholder (withClass ''spotlight'' k)
                      else withClass ''spotlight'' k)
        \<or> node_of ob = withClass ''dim'' k)"

text \<open>
  \<open>markerFree v\<close>: neither marker occurs in \<open>v\<close>. \<open>lineMarker k\<close>: the marker that the loop
  strips from the line \<open>k\<close>, the start marker when the text of the line contains it and
  the end marker otherwise.
\<close>

definition markerFree :: "string \<Rightarrow> bool" where
  "markerFree v = (\<not> str_includes v startMarker \<and> \<not> str_includes v endMarker)"

definition lineMarker :: "node \<Rightarrow> string" where
  "lineMarker k = (if str_includes (getText k) startMarker then startMarker else endMarker)"

text \<open>
  \<open>holdsOneMarker k us a r ws\<close>: the text values of the line \<open>k\<close> are those of \<open>us\<close>, then one
  value that holds the marker of the line between \<open>a\<close> and \<open>r\<close>, then those of \<open>ws\<close>; and
  the text of the line without that occurrence of the marker and the white space after
  it holds no marker.
\<close>

definition holdsOneMarker :: "node \<Rightarrow> string list \<Rightarrow> string \<Rightarrow> string \<Rightarrow> string list \<Rightarrow> bool" where
  "holdsOneMarker k us a r ws =
     (textValues k = us @ [a @ lineMarker k @ r] @ ws
      \<and> markerFree (concat us @ a @ dropWhile isSpace r @ concat ws))"

section \<open>Basic facts about the store and the loop\<close>

text \<open>The truthiness probes make no difference on text nodes.\<close>

lemma getText_Text [simp]: "getText (Text v) = v"
  by simp

lemma transformNode_Text [simp]: "transformNode m (Text v) = Text (replaceMarker m v)"
  by simp

lemma hasMarker_Text [simp]:
  "hasMarker (Text v) = (str_includes v startMarker \<or> str_includes v endMarker)"
  by (auto simp: str_includes_def startMarker_def endMarker_def)

declare getText.simps(1) [simp del] transformNode.simps(1) [simp del]
  hasMarker.simps(1) [simp del]

lemma length_mark [simp]: "length (mark i os) = length os"
  by (simp add: mark_def)

lemma length_setNode [simp]: "length (setNode i n os) = length os"
  by (simp add: setNode_def)

lemma length_markIfNewline [simp]: "length (markIfNewline p os) = length os"
  by (simp add: markIfNewline_def split: option.splits)

lemma node_of_mark [simp]: "node_of (mark i os ! j) = node_of (os ! j)"
proof (cases "i < length os")
  case True
  then show ?thesis by (cases "j = i") (simp_all add: mark_def)
next
  case False
  then show ?thesis by (simp add: mark_def list_update_beyond)
qed

lemma node_of_markIfNewline [simp]: "node_of (markIfNewline p os ! j) = node_of (os ! j)"
  by (simp add: markIfNewline_def split: option.splits)

lemma shouldRemove_mark:
  "j < length os \<Longrightarrow> shouldRemove (mark i os ! j) = (j = i \<or> shouldRemove (os ! j))"
  by (cases "j = i") (simp_all add: mark_def)

lemma shouldRemove_setNode [simp]: "shouldRemove (setNode i n os ! j) = shouldRemove (os ! j)"
proof (cases "i < length os")
  case True
  then show ?thesis by (cases "j = i") (simp_all add: setNode_def)
next
  case False
  then show ?thesis by (simp add: setNode_def list_update_beyond)
qed

lemma node_of_setNode:
  "i < length os \<Longrightarrow> node_of (setNode i n os ! j) = (if j = i then n else node_of (os ! j))"
  by (simp add: setNode_def)

lemma node_of_setNode_other [simp]:
  "j \<noteq> i \<Longrightarrow> node_of (setNode i n os ! j) = node_of (os ! j)"
  by (simp add: setNode_def)

lemma classify_cases [consumes 1, case_names markerOnly inlineStart inlineEnd spotlight dim]:
  assumes "classify kids (os, s) i = Inr (os', s')"
  obtains
    (markerOnly) "trim (getText (node_of (os ! i))) = startMarker
        \<or> trim (getText (node_of (os ! i))) = endMarker"
      "os' = markIfNewline (at kids (indexOf kids i + 1)) (mark i os)"
      "s' = str_includes (getText (node_of (os ! i))) ''spotlight-start''"
  | (inlineStart) "trim (getText (node_of (os ! i))) \<noteq> startMarker"
      "trim (getText (node_of (os ! i))) \<noteq> endMarker"
      "str_includes (getText (node_of (os ! i))) startMarker"
      "os' = setNode i (transformNode startMarker (node_of (os ! i))) os" "s'"
  | (inlineEnd) "trim (getText (node_of (os ! i))) \<noteq> startMarker"
      "trim (getText (node_of (os ! i))) \<noteq> endMarker"
      "\<not> str_includes (getText (node_of (os ! i))) startMarker"
      "str_includes (getText (node_of (os ! i))) endMarker"
      "os' = setNode i (transformNode endMarker (node_of (os ! i))) os" "\<not> s'"
  | (spotlight) span' where "trim (getText (node_of (os ! i))) \<noteq> startMarker"
      "trim (getText (node_of (os ! i))) \<noteq> endMarker"
      "\<not> str_includes (getText (node_of (os ! i))) startMarker"
      "\<not> str_includes (getText (node_of (os ! i))) endMarker"
      "s" "s'" "addClass ''spotlight'' (node_of (os ! i)) = Inr span'"
      "os' = setNode i (if trim (getText (node_of (os ! i))) = [] then setPlaceholder span'
                        else span') os"
  | (dim) span' where "trim (getText (node_of (os ! i))) \<noteq> startMarker"
      "trim (getText (node_of (os ! i))) \<noteq> endMarker"
      "\<not> str_includes (getText (node_of (os ! i))) startMarker"
      "\<not> str_includes (getText (node_of (os ! i))) endMarker"
      "\<not> s" "\<not> s'" "addClass ''dim'' (node_of (os ! i)) = Inr span'"
      "os' = setNode i span' os"
  using assms unfolding classify_def Let_def
  by (auto split: if_splits sum.splits)

lemma height_child: "k \<in> set ks \<Longrightarrow> height k < height (Element t c ks)"
  by (simp add: less_Suc_eq_le Max_ge_iff)

lemma height_Element_mono:
  assumes "\<And>x. x \<in> set ks' \<Longrightarrow> \<exists>y\<in>set ks. height x \<le> height y"
  shows "height (Element t' c' ks') \<le> height (Element t c ks)"
proof -
  have "Max (set (0 # map height ks')) \<le> Max (set (0 # map height ks))"
  proof (rule Max.boundedI)
    fix a assume "a \<in> set (0 # map height ks')"
    then consider "a = 0" | x where "x \<in> set ks'" "a = height x" by auto
    then show "a \<le> Max (set (0 # map height ks))"
    proof cases
      case 1
      then show ?thesis by simp
    next
      case 2
      with assms obtain y where "y \<in> set ks" "height x \<le> height y" by blast
      with 2 show ?thesis by (auto simp: Max_ge_iff)
    qed
  qed simp_all
  then show ?thesis by simp
qed

lemma height_transformNode [simp]: "height (transformNode m n) = height n"
proof (induction n)
  case (Text v)
  then show ?case by simp
next
  case (Element t c ks)
  then have "map (height \<circ> transformNode m) ks = map height ks" by simp
  then show ?case by simp
qed

lemma isLine_transformNode [simp]: "isLine (transformNode m n) = isLine n"
  by (cases n) simp_all

lemma addClass_Inr:
  assumes "addClass c n = Inr n'"
  obtains t cl ks where "n = Element t (Some cl) ks" "n' = Element t (Some (cl @ [c])) ks"
  using assms by (cases "(c, n)" rule: addClass.cases) auto

lemma addClass_isLine: "isLine n \<Longrightarrow> \<exists>n'. addClass c n = Inr n'"
  by (cases "(c, n)" rule: addClass.cases) auto

lemma isLine_setPlaceholder [simp]: "isLine (setPlaceholder n) = isLine n"
  by (cases n) simp_all

lemma height_setPlaceholder: "height (setPlaceholder n) \<le> height n"
  by (cases n) simp_all

lemma isLine_not_newline: "isLine n \<Longrightarrow> \<not> isNewlineText n"
  by (cases n) simp_all

text \<open>One step of the loop.\<close>

lemma classify_length: "classify kids (os, s) i = Inr (os', s') \<Longrightarrow> length os' = length os"
  by (erule classify_cases) auto

lemma classify_frame:
  "classify kids (os, s) i = Inr (os', s') \<Longrightarrow> j \<noteq> i \<Longrightarrow> node_of (os' ! j) = node_of (os ! j)"
  by (erule classify_cases) auto

lemma classify_beyond:
  "classify kids (os, s) i = Inr (os', s') \<Longrightarrow> \<not> i < length os \<Longrightarrow>
   node_of (os' ! j) = node_of (os ! j)"
  by (erule classify_cases) (auto simp: setNode_def list_update_beyond)

lemma classify_isLine:
  assumes "classify kids (os, s) i = Inr (os', s')" "isLine (node_of (os ! j))"
  shows "isLine (node_of (os' ! j))"
proof (cases "j = i \<and> i < length os")
  case False
  with assms classify_frame classify_beyond show ?thesis by metis
next
  case True
  with assms show ?thesis
    by (cases rule: classify_cases) (auto simp: node_of_setNode elim!: addClass_Inr)
qed

lemma classify_height:
  assumes "classify kids (os, s) i = Inr (os', s')"
  shows "height (node_of (os' ! j)) \<le> height (node_of (os ! j))"
proof (cases "j = i \<and> i < length os")
  case False
  with assms classify_frame classify_beyond show ?thesis by (metis order_refl)
next
  case True
  with assms show ?thesis
  proof (cases rule: classify_cases)
    case (spotlight span')
    from spotlight(7) have "height span' = height (node_of (os ! i))"
      by (auto elim!: addClass_Inr)
    with spotlight(8) True height_setPlaceholder [of span'] show ?thesis
      by (simp add: node_of_setNode)
  next
    case (dim span')
    from dim(7) have "height span' = height (node_of (os ! i))"
      by (auto elim!: addClass_Inr)
    with dim(8) True show ?thesis by (simp add: node_of_setNode)
  qed (simp_all add: node_of_setNode)
qed

lemma classify_total:
  assumes "isLine (node_of (os ! i))"
  shows "\<exists>st'. classify kids (os, s) i = Inr st'"
proof -
  obtain a where "addClass ''spotlight'' (node_of (os ! i)) = Inr a"
    using addClass_isLine [OF assms] by blast
  moreover obtain b where "addClass ''dim'' (node_of (os ! i)) = Inr b"
    using addClass_isLine [OF assms] by blast
  ultimately show ?thesis by (auto simp: classify_def Let_def)
qed

text \<open>The whole loop.\<close>

lemma forEachLine_Cons_Inr:
  assumes "forEachLine kids (i # ls) (os, s) = Inr (os', s')"
  obtains os1 s1 where "classify kids (os, s) i = Inr (os1, s1)"
    "forEachLine kids ls (os1, s1) = Inr (os', s')"
  using assms by (auto split: sum.splits)

lemma forEachLine_length:
  "forEachLine kids ls (os, s) = Inr (os', s') \<Longrightarrow> length os' = length os"
proof (induction ls arbitrary: os s)
  case Nil
  then show ?case by simp
next
  case (Cons i ls)
  from Cons.prems obtain os1 s1 where
    "classify kids (os, s) i = Inr (os1, s1)" "forEachLine kids ls (os1, s1) = Inr (os', s')"
    by (rule forEachLine_Cons_Inr)
  with Cons.IH classify_length show ?case by metis
qed

lemma forEachLine_frame:
  "forEachLine kids ls (os, s) = Inr (os', s') \<Longrightarrow> j \<notin> set ls \<Longrightarrow>
   node_of (os' ! j) = node_of (os ! j)"
proof (induction ls arbitrary: os s)
  case Nil
  then show ?case by simp
next
  case (Cons i ls)
  from Cons.prems(1) obtain os1 s1 where
    "classify kids (os, s) i = Inr (os1, s1)" "forEachLine kids ls (os1, s1) = Inr (os', s')"
    by (rule forEachLine_Cons_Inr)
  with Cons.IH [of os1 s1] Cons.prems(2) classify_frame [of kids os s i os1 s1 j]
  show ?case by simp
qed

lemma forEachLine_isLine:
  "forEachLine kids ls (os, s) = Inr (os', s') \<Longrightarrow> isLine (node_of (os ! j)) \<Longrightarrow>
   isLine (node_of (os' ! j))"
proof (induction ls arbitrary: os s)
  case Nil
  then show ?case by simp
next
  case (Cons i ls)
  from Cons.prems(1) obtain os1 s1 where
    "classify kids (os, s) i = Inr (os1, s1)" "forEachLine kids ls (os1, s1) = Inr (os', s')"
    by (rule forEachLine_Cons_Inr)
  with Cons.IH [of os1 s1] Cons.prems(2) classify_isLine [of kids os s i os1 s1 j]
  show ?case by simp
qed

lemma forEachLine_height:
  "forEachLine kids ls (os, s) = Inr (os', s') \<Longrightarrow>
   height (node_of (os' ! j)) \<le> height (node_of (os ! j))"
proof (induction ls arbitrary: os s)
  case Nil
  then show ?case by simp
next
  case (Cons i ls)
  from Cons.prems(1) obtain os1 s1 where
    "classify kids (os, s) i = Inr (os1, s1)" "forEachLine kids ls (os1, s1) = Inr (os', s')"
    by (rule forEachLine_Cons_Inr)
  with Cons.IH [of os1 s1] classify_height [of kids os s i os1 s1 j]
  show ?case by simp
qed

lemma forEachLine_total:
  "list_all (\<lambda>i. isLine (node_of (os ! i))) ls \<Longrightarrow> \<exists>st'. forEachLine kids ls (os, s) = Inr st'"
proof (induction ls arbitrary: os s)
  case Nil
  then show ?case by simp
next
  case (Cons i ls)
  from Cons.prems have "isLine (node_of (os ! i))" by simp
  then obtain os1 s1 where c: "classify kids (os, s) i = Inr (os1, s1)"
    using classify_total by (metis surj_pair)
  with Cons.prems have "list_all (\<lambda>i. isLine (node_of (os1 ! i))) ls"
    by (auto simp: list_all_iff intro: classify_isLine)
  from Cons.IH [OF this] c show ?case by simp
qed

text \<open>The cleanup changes flags only.\<close>

lemma node_of_initStore [simp]: "j < length ks \<Longrightarrow> node_of (initStore ks ! j) = ks ! j"
  by (simp add: initStore_def)

lemma length_initStore [simp]: "length (initStore ks) = length ks"
  by (simp add: initStore_def)

lemma node_of_trailingCleanup [simp]:
  "node_of (trailingCleanup kids ls os ! j) = node_of (os ! j)"
  by (simp add: trailingCleanup_def Let_def)

lemma length_trailingCleanup [simp]: "length (trailingCleanup kids ls os) = length os"
  by (simp add: trailingCleanup_def Let_def)

lemma node_of_cleanedStore [simp]: "j < length ks \<Longrightarrow> node_of (cleanedStore ks ! j) = ks ! j"
  by (simp add: cleanedStore_def)

lemma length_cleanedStore [simp]: "length (cleanedStore ks) = length ks"
  by (simp add: cleanedStore_def)

lemma set_lineSpansOf: "set (lineSpansOf ks) = {i. i < length ks \<and> isLine (ks ! i)}"
  by (auto simp: lineSpansOf_def)

lemma distinct_lineSpansOf [simp]: "distinct (lineSpansOf ks)"
  by (simp add: lineSpansOf_def)

lemma set_unremoved_subset: "set (unremoved os kids) \<subseteq> set kids"
  by (auto simp: unremoved_def)

lemma set_cleanedKids_subset: "set (cleanedKids ks) \<subseteq> {0..<length ks}"
  using set_unremoved_subset [of "cleanedStore ks" "[0..<length ks]"]
  by (simp add: cleanedKids_def)

lemma lineSpans_cleaned:
  "list_all (\<lambda>i. isLine (node_of (cleanedStore ks ! i))) (lineSpansOf ks)"
  by (simp add: list_all_iff set_lineSpansOf)

lemma blockPass_total: "\<exists>r. blockPass ks = Inr r"
proof -
  obtain st where "forEachLine (cleanedKids ks) (lineSpansOf ks) (cleanedStore ks, False) = Inr st"
    using forEachLine_total [OF lineSpans_cleaned] by blast
  then show ?thesis by (auto simp: blockPass_def spotlightPass_def Let_def)
qed

lemma blockPass_Inr:
  assumes "blockPass ks = Inr (os, kids, hs)"
  obtains (plain) "\<not> list_ex (\<lambda>i. hasMarker (ks ! i)) (lineSpansOf ks)"
      "os = cleanedStore ks" "kids = cleanedKids ks" "\<not> hs"
  | (spotlights) s where "list_ex (\<lambda>i. hasMarker (ks ! i)) (lineSpansOf ks)"
      "forEachLine (cleanedKids ks) (lineSpansOf ks) (cleanedStore ks, False) = Inr (os, s)"
      "kids = unremoved os (cleanedKids ks)" "hs"
proof -
  have eq: "list_ex (\<lambda>i. hasMarker (node_of (cleanedStore ks ! i))) (lineSpansOf ks)
      = list_ex (\<lambda>i. hasMarker (ks ! i)) (lineSpansOf ks)"
    by (auto simp: list_ex_iff set_lineSpansOf)
  show ?thesis
  proof (cases "list_ex (\<lambda>i. hasMarker (ks ! i)) (lineSpansOf ks)")
    case False
    with assms eq plain show ?thesis
      by (simp add: blockPass_def spotlightPass_def Let_def)
  next
    case True
    with assms eq obtain st where
      "forEachLine (cleanedKids ks) (lineSpansOf ks) (cleanedStore ks, False) = Inr st"
      "os = fst st" "kids = unremoved (fst st) (cleanedKids ks)" "hs"
      by (auto simp: blockPass_def spotlightPass_def Let_def split: sum.splits)
    with True spotlights [of "snd st"] show ?thesis by simp
  qed
qed

lemma blockPass_kids: 
  assumes "blockPass ks = Inr (os, kids, hs)"
  shows "set kids \<subseteq> {0..<length ks}"
  using assms
proof (cases rule: blockPass_Inr)
  case plain
  then show ?thesis using set_cleanedKids_subset by simp
next
  case (spotlights s)
  then show ?thesis using set_cleanedKids_subset set_unremoved_subset by blast
qed

lemma blockPass_height:
  assumes "blockPass ks = Inr (os, kids, hs)" "j < length ks"
  shows "height (node_of (os ! j)) \<le> height (ks ! j)"
  using assms(1)
proof (cases rule: blockPass_Inr)
  case plain
  with assms(2) show ?thesis by simp
next
  case (spotlights s)
  from forEachLine_height [OF spotlights(2), of j] assms(2) show ?thesis by simp
qed

lemma processCode_total: "\<exists>n'. processCode (Element t c ks) = Inr n'"
  using blockPass_total [of ks] by auto

lemma processCode_height:
  assumes "processCode n = Inr n'"
  shows "height n' \<le> height n"
proof (cases n)
  case (Text v)
  with assms show ?thesis by simp
next
  case (Element t c ks)
  with assms obtain os kids hs where r: "blockPass ks = Inr (os, kids, hs)"
    and n': "n' = rebuild t c (os, kids, hs)"
    by (auto split: sum.splits)
  have "\<exists>y\<in>set ks. height x \<le> height y"
    if "x \<in> set (map (\<lambda>j. node_of (os ! j)) kids)" for x
  proof -
    from that obtain j where j: "j \<in> set kids" "x = node_of (os ! j)" by auto
    with blockPass_kids [OF r] have "j < length ks" by auto
    with blockPass_height [OF r] j show ?thesis by (metis nth_mem)
  qed
  then show ?thesis unfolding n' Element rebuild_def prod.case
    by (rule height_Element_mono)
qed

lemma set_replaceFirst: "set (replaceFirst p y xs) \<subseteq> insert y (set xs)"
  by (induction xs) auto

lemma visitPre_total:
  assumes "\<And>t c ks. \<exists>n'. process (Element t c ks) = Inr n'"
  shows "\<exists>n'. visitPre process n = Inr n'"
proof (cases n)
  case (Text v)
  then show ?thesis by simp
next
  case (Element t c ks)
  show ?thesis
  proof (cases "filter isCode ks")
    case Nil
    with Element show ?thesis by simp
  next
    case (Cons codeEl rest)
    then have "codeEl \<in> set (filter isCode ks)" by simp
    then have "isCode codeEl" by simp
    then obtain t' c' ks' where "codeEl = Element t' c' ks'" by (cases codeEl) auto
    with assms obtain n' where "process codeEl = Inr n'" by blast
    with Element Cons show ?thesis by simp
  qed
qed

lemma visitPre_height:
  assumes "\<And>k k'. process k = Inr k' \<Longrightarrow> height k' \<le> height k"
    and "visitPre process n = Inr n'"
  shows "height n' \<le> height n"
proof (cases n)
  case (Text v)
  with assms(2) show ?thesis by auto
next
  case (Element t c ks)
  show ?thesis
  proof (cases "t = ''pre''")
    case False
    with assms(2) Element show ?thesis by auto
  next
    case True
    show ?thesis
    proof (cases "filter isCode ks")
      case Nil
      with assms(2) Element True show ?thesis by auto
    next
      case (Cons codeEl rest)
      with assms(2) Element True obtain codeEl' where p: "process codeEl = Inr codeEl'"
        and n': "n' = Element t c (replaceFirst isCode codeEl' ks)"
        by (auto split: sum.splits)
      from Cons have "codeEl \<in> set (filter isCode ks)" by simp
      then have mem: "codeEl \<in> set ks" by simp
      have "\<exists>y\<in>set ks. height x \<le> height y" if "x \<in> set (replaceFirst isCode codeEl' ks)" for x
      proof -
        from that set_replaceFirst have "x = codeEl' \<or> x \<in> set ks" by fastforce
        with assms(1) [OF p] mem show ?thesis by auto
      qed
      then show ?thesis unfolding n' Element by (rule height_Element_mono)
    qed
  qed
qed

lemma visitor_total: "\<exists>n'. visitor n = Inr n'"
  unfolding visitor_def by (rule visitPre_total) (rule processCode_total)

lemma visitor_height: "visitor n = Inr n' \<Longrightarrow> height n' \<le> height n"
  unfolding visitor_def by (rule visitPre_height) (rule processCode_height)

text \<open>The earliest revision makes no tree higher either.\<close>

lemma height_transformNodeEarly: "height (fst (transformNodeEarly n)) \<le> height n"
proof (induction n)
  case (Text v)
  then show ?case by (simp add: Let_def)
next
  case (Element t c ks)
  have "\<exists>y\<in>set ks. height x \<le> height y"
    if "x \<in> set (map fst (filter (\<lambda>r. \<not> snd r) (map transformNodeEarly ks)))" for x
  proof -
    from that obtain k where "k \<in> set ks" "x = fst (transformNodeEarly k)" by auto
    with Element show ?thesis by blast
  qed
  then have "height (Element t c (map fst (filter (\<lambda>r. \<not> snd r) (map transformNodeEarly ks))))
      \<le> height (Element t c ks)"
    by (rule height_Element_mono)
  then show ?case by (simp add: Let_def)
qed

lemma height_clearChildren: "height (clearChildren n) \<le> height n"
  by (cases n) simp_all

lemma height_thenTransform: "height (thenTransform n) \<le> height n"
  using height_transformNodeEarly [of n] height_clearChildren [of "fst (transformNodeEarly n)"]
  by (simp add: thenTransform_def Let_def)

lemma height_classifyFirst:
  "classifyFirst n s = Inr (n', s') \<Longrightarrow> height n' = height n"
  unfolding classifyFirst_def Let_def
  by (auto split: if_splits sum.splits elim!: addClass_Inr)

lemma classifyEarly_height:
  assumes "classifyEarly (os, s) i = Inr (os', s')"
  shows "length os' = length os \<and> height (os' ! j) \<le> height (os ! j)"
proof -
  from assms obtain span1 where c: "classifyFirst (os ! i) s = Inr (span1, s')"
    and os': "os' = os[i := thenTransform span1]"
    by (auto simp: classifyEarly_def split: sum.splits)
  from height_classifyFirst [OF c] height_thenTransform [of span1]
  have "height (thenTransform span1) \<le> height (os ! i)" by simp
  then show ?thesis unfolding os'
    by (cases "i < length os"; cases "j = i") (simp_all add: list_update_beyond)
qed

lemma forEachLineEarly_height:
  "forEachLineEarly ls (os, s) = Inr (os', s') \<Longrightarrow>
   length os' = length os \<and> height (os' ! j) \<le> height (os ! j)"
proof (induction ls arbitrary: os s)
  case Nil
  then show ?case by simp
next
  case (Cons i ls)
  from Cons.prems obtain os1 s1 where c: "classifyEarly (os, s) i = Inr (os1, s1)"
    and r: "forEachLineEarly ls (os1, s1) = Inr (os', s')"
    by (auto split: sum.splits)
  from Cons.IH [OF r] classifyEarly_height [OF c, of j] show ?case by simp
qed

lemma processCodeEarly_height:
  assumes "processCodeEarly n = Inr n'"
  shows "height n' \<le> height n"
proof (cases n)
  case (Text v)
  with assms show ?thesis by simp
next
  case (Element t c ks)
  with assms obtain ks' hs where r: "blockPassEarly ks = Inr (ks', hs)"
    and n': "n' = Element t (if hs then withHasSpotlights c else c) ks'"
    by (auto split: sum.splits)
  have "\<exists>y\<in>set ks. height x \<le> height y" if x: "x \<in> set ks'" for x
  proof (cases hs)
    case False
    with r x show ?thesis
      by (auto simp: blockPassEarly_def Let_def split: if_splits sum.splits)
  next
    case True
    with r obtain os s where f: "forEachLineEarly (lineSpansOf ks) (ks, False) = Inr (os, s)"
      and ks': "ks' = filter (\<lambda>k. \<not> isEmptySpan k) os"
      by (auto simp: blockPassEarly_def Let_def split: if_splits sum.splits)
    from x ks' have "x \<in> set os" by simp
    then obtain j where "j < length os" "x = os ! j" by (auto simp: in_set_conv_nth)
    with forEachLineEarly_height [OF f, of j] show ?thesis by (metis nth_mem)
  qed
  then show ?thesis unfolding n' Element by (rule height_Element_mono)
qed

lemma visitorEarly_height: "visitorEarly n = Inr n' \<Longrightarrow> height n' \<le> height n"
  unfolding visitorEarly_def by (rule visitPre_height) (rule processCodeEarly_height)

lemma mapE_cong [fundef_cong]:
  "xs = ys \<Longrightarrow> (\<And>x. x \<in> set ys \<Longrightarrow> f x = g x) \<Longrightarrow> mapE f xs = mapE g ys"
  by (induction ys arbitrary: xs) (auto split: sum.splits)

text \<open>
  The walk itself: the visitor is called on an element, then the children that the
  element has after the call are walked in order. \<open>annotate\<close> is the latest revision and
  \<open>annotateEarly\<close> the earliest; both terminate by the height of the tree.
\<close>

function annotate :: "node \<Rightarrow> error + node" where
  "annotate (Text v) = Inr (Text v)"
| "annotate (Element t c ks) =
     (case visitor (Element t c ks) of
        Inl e \<Rightarrow> Inl e
      | Inr (Text v') \<Rightarrow> Inr (Text v')
      | Inr (Element t' c' ks') \<Rightarrow>
          (case mapE annotate ks' of
             Inl e \<Rightarrow> Inl e
           | Inr ks'' \<Rightarrow> Inr (Element t' c' ks'')))"
  by pat_completeness auto
termination
proof (relation "measure height")
  fix t c ks x2 t' c' ks' x
  assume "visitor (Element t c ks) = Inr x2" "x2 = Element t' c' ks'" "x \<in> set ks'"
  then have "height (Element t' c' ks') \<le> height (Element t c ks)" "height x < height (Element t' c' ks')"
    using visitor_height height_child by blast+
  then have "height x < height (Element t c ks)" by (rule less_le_trans [rotated])
  then show "(x, Element t c ks) \<in> measure height" by (simp del: height.simps)
qed simp

function annotateEarly :: "node \<Rightarrow> error + node" where
  "annotateEarly (Text v) = Inr (Text v)"
| "annotateEarly (Element t c ks) =
     (case visitorEarly (Element t c ks) of
        Inl e \<Rightarrow> Inl e
      | Inr (Text v') \<Rightarrow> Inr (Text v')
      | Inr (Element t' c' ks') \<Rightarrow>
          (case mapE annotateEarly ks' of
             Inl e \<Rightarrow> Inl e
           | Inr ks'' \<Rightarrow> Inr (Element t' c' ks'')))"
  by pat_completeness auto
termination
proof (relation "measure height")
  fix t c ks x2 t' c' ks' x
  assume "visitorEarly (Element t c ks) = Inr x2" "x2 = Element t' c' ks'" "x \<in> set ks'"
  then have "height (Element t' c' ks') \<le> height (Element t c ks)"
    "height x < height (Element t' c' ks')"
    using visitorEarly_height height_child by blast+
  then have "height x < height (Element t c ks)" by (rule less_le_trans [rotated])
  then show "(x, Element t c ks) \<in> measure height" by (simp del: height.simps)
qed simp

section \<open>Marker substrings\<close>

lemma all_dropWhile: "list_all P (dropWhile P s) \<longleftrightarrow> list_all P s"
  by (induction s) simp_all

lemma trim_empty_iff: "trim s = [] \<longleftrightarrow> list_all isSpace s"
proof -
  have "trim s = [] \<longleftrightarrow> list_all isSpace (dropWhile isSpace s)"
    by (simp add: trim_def dropWhile_eq_Nil_conv list_all_iff)
  then show ?thesis by (simp add: all_dropWhile)
qed

lemma sublist_concat_member: "v \<in> set vs \<Longrightarrow> sublist m v \<Longrightarrow> sublist m (concat vs)"
proof (induction vs)
  case Nil
  then show ?case by simp
next
  case (Cons a vs)
  then show ?case by (auto simp: sublist_append)
qed

lemma hasMarker_getText:
  "hasMarker n \<Longrightarrow>
   str_includes (getText n) startMarker \<or> str_includes (getText n) endMarker"
proof (induction n)
  case (Text v)
  then show ?case by simp
next
  case (Element t c ks)
  from Element.prems obtain k where k: "k \<in> set ks" "hasMarker k"
    by (auto simp: list_ex_iff)
  with Element.IH have "str_includes (getText k) startMarker \<or> str_includes (getText k) endMarker"
    by blast
  with k(1) show ?case
    using sublist_concat_member [of "getText k" "map getText ks"]
    by (auto simp: str_includes_def)
qed

lemma replaceMarker_absent: "\<not> sublist m v \<Longrightarrow> replaceMarker m v = v"
proof (induction v)
  case Nil
  then show ?case by simp
next
  case (Cons c cs)
  then show ?case by (auto simp: sublist_Cons_right)
qed

lemma replaceMarker_decomp:
  assumes "sublist m v"
  shows "\<exists>a w b. v = a @ m @ w @ b \<and> list_all isSpace w \<and> replaceMarker m v = a @ b"
  using assms
proof (induction v)
  case Nil
  then have "m = []" by simp
  then show ?case by simp
next
  case (Cons c cs)
  show ?case
  proof (cases "prefix m (c # cs)")
    case True
    then obtain r where r: "c # cs = m @ r" by (auto simp: prefix_def)
    then have "drop (length m) (c # cs) = r" by simp
    with True have "replaceMarker m (c # cs) = dropWhile isSpace r" by simp
    moreover have "c # cs = [] @ m @ takeWhile isSpace r @ dropWhile isSpace r"
      using r by simp
    moreover have "list_all isSpace (takeWhile isSpace r)"
      by (auto simp: list_all_iff dest: set_takeWhileD)
    ultimately show ?thesis by (metis append_Nil)
  next
    case False
    with Cons.prems have "sublist m cs" by (simp add: sublist_Cons_right)
    with Cons.IH obtain a w b where "cs = a @ m @ w @ b" "list_all isSpace w"
      "replaceMarker m cs = a @ b" by blast
    with False have "c # cs = (c # a) @ m @ w @ b \<and> list_all isSpace w
        \<and> replaceMarker m (c # cs) = (c # a) @ b" by simp
    then show ?thesis by blast
  qed
qed

lemma end_not_in_spaces:
  "list_all isSpace w \<Longrightarrow> sublist endMarker (w @ b) \<Longrightarrow> sublist endMarker b"
proof (induction w)
  case Nil
  then show ?case by simp
next
  case (Cons c w)
  from Cons.prems(1) have "c \<noteq> CHR ''/''" by (auto simp: isSpace_def)
  with Cons show ?case by (auto simp: sublist_Cons_right endMarker_def)
qed

lemma end_not_in_start:
  "sublist endMarker (startMarker @ r) \<Longrightarrow> sublist endMarker r"
  by (simp add: startMarker_def endMarker_def sublist_Cons_right)

lemma end_no_overlap:
  assumes "endMarker = a @ us" "a \<noteq> []" "us \<noteq> []"
  shows "\<not> prefix us (startMarker @ r)"
  using assms
  by (auto simp: endMarker_def startMarker_def Cons_eq_append_conv)

lemma end_survives_core:
  assumes "sublist endMarker (a @ startMarker @ w @ b)" "list_all isSpace w"
  shows "sublist endMarker (a @ b)"
  using assms(1)
proof (induction a)
  case Nil
  then have "sublist endMarker (w @ b)" using end_not_in_start by simp
  with assms(2) show ?case using end_not_in_spaces by simp
next
  case (Cons x a)
  from Cons.prems consider "prefix endMarker ((x # a) @ startMarker @ w @ b)"
    | "sublist endMarker (a @ startMarker @ w @ b)"
    by (auto simp: sublist_Cons_right)
  then show ?case
  proof cases
    case 2
    with Cons.IH have "sublist endMarker (a @ b)" by simp
    then show ?thesis by (simp add: sublist_Cons_right)
  next
    case 1
    then consider "prefix endMarker (x # a)"
      | us where "endMarker = (x # a) @ us" "prefix us (startMarker @ w @ b)"
      unfolding prefix_append by blast
    then show ?thesis
    proof cases
      case 1
      then have "prefix endMarker ((x # a) @ b)" by (metis prefix_prefix)
      then show ?thesis by (metis prefix_imp_sublist)
    next
      case 2
      show ?thesis
      proof (cases "us = []")
        case True
        with 2 have "endMarker = x # a" by simp
        then show ?thesis by (metis sublist_append_rightI)
      next
        case False
        with 2 end_no_overlap [of "x # a" us "w @ b"] show ?thesis by simp
      qed
    qed
  qed
qed

lemma end_survives_value:
  assumes "sublist endMarker (p @ v @ q)"
  shows "sublist endMarker (p @ replaceMarker startMarker v @ q)"
proof (cases "sublist startMarker v")
  case False
  with assms show ?thesis by (simp add: replaceMarker_absent)
next
  case True
  then obtain a w b where v: "v = a @ startMarker @ w @ b" and w: "list_all isSpace w"
    and r: "replaceMarker startMarker v = a @ b"
    using replaceMarker_decomp by blast
  from assms v have "sublist endMarker ((p @ a) @ startMarker @ w @ (b @ q))" by simp
  from end_survives_core [OF this w] r show ?thesis by simp
qed

lemma end_survives_tree:
  "sublist endMarker (p @ getText n @ q) \<Longrightarrow>
   sublist endMarker (p @ getText (transformNode startMarker n) @ q)"
proof (induction n arbitrary: p q)
  case (Text v)
  then show ?case using end_survives_value [of p v q] by simp
next
  case (Element t c ks)
  have "sublist endMarker (p @ concat (map getText ks') @ q) \<Longrightarrow>
        sublist endMarker (p @ concat (map (getText \<circ> transformNode startMarker) ks') @ q)"
    if "set ks' \<subseteq> set ks" for ks' p q
    using that
  proof (induction ks' arbitrary: p)
    case Nil
    then show ?case by simp
  next
    case (Cons k ks')
    from Cons.prems have k: "k \<in> set ks" and sub: "set ks' \<subseteq> set ks" by auto
    from Cons.prems(1)
    have "sublist endMarker (p @ getText k @ (concat (map getText ks') @ q))" by simp
    from Element.IH [OF k this]
    have "sublist endMarker
        ((p @ getText (transformNode startMarker k)) @ concat (map getText ks') @ q)"
      by simp
    from Cons.IH [OF this sub] show ?case by simp
  qed
  from this [of ks p q] Element.prems show ?case by simp
qed

lemma replaceMarker_leftmost:
  assumes "m \<noteq> []" "\<not> sublist m (a @ butlast m)" "list_all isSpace w"
    "b = [] \<or> \<not> isSpace (hd b)"
  shows "replaceMarker m (a @ m @ w @ b) = a @ b"
  using assms(2)
proof (induction a)
  case Nil
  from assms(1) obtain c m' where m: "m = c # m'" by (cases m) auto
  from assms(3,4) have "dropWhile isSpace (w @ b) = b"
    by (cases b) (auto simp: dropWhile_append list_all_iff)
  then show ?case by (simp add: m)
next
  case (Cons x a)
  have np: "\<not> prefix m (x # a @ m @ w @ b)"
  proof
    assume p: "prefix m (x # a @ m @ w @ b)"
    have "m = butlast m @ [last m]" using assms(1) by simp
    then have "x # a @ m @ w @ b = ((x # a) @ butlast m) @ (last m # w @ b)"
      by (metis append.assoc append_Cons append_Nil)
    with p have "prefix m (((x # a) @ butlast m) @ (last m # w @ b))" by simp
    moreover have "prefix ((x # a) @ butlast m) (((x # a) @ butlast m) @ (last m # w @ b))"
      by simp
    moreover have "length m \<le> length ((x # a) @ butlast m)" by simp
    ultimately have "prefix m ((x # a) @ butlast m)"
      by (rule prefix_length_prefix)
    then have "sublist m ((x # a) @ butlast m)" by (rule prefix_imp_sublist)
    with Cons.prems show False by simp
  qed
  from Cons.prems have "\<not> sublist m (a @ butlast m)"
    by (simp add: sublist_Cons_right)
  with Cons.IH have "replaceMarker m (a @ m @ w @ b) = a @ b" by simp
  with np show ?case by simp
qed

lemma textValues_transformNode:
  "textValues (transformNode m n) = map (replaceMarker m) (textValues n)"
proof (induction n)
  case (Text v)
  then show ?case by simp
next
  case (Element t c ks)
  then have eq: "map (\<lambda>k. textValues (transformNode m k)) ks
      = map (\<lambda>k. map (replaceMarker m) (textValues k)) ks"
    by simp
  have "textValues (transformNode m (Element t c ks))
      = concat (map (\<lambda>k. textValues (transformNode m k)) ks)"
    by (simp add: comp_def)
  also have "\<dots> = concat (map (\<lambda>k. map (replaceMarker m) (textValues k)) ks)"
    by (simp only: eq)
  also have "\<dots> = map (replaceMarker m) (textValues (Element t c ks))"
    by (simp add: map_concat comp_def)
  finally show ?case .
qed

section \<open>The two revisions compared\<close>

text \<open>
  Claim C9. The earliest revision (which drops every line that the stripping leaves
  empty) and the latest revision (which keeps a blank spotlighted line as a no-break
  space placeholder) are not interchangeable. On a block made of a start marker line, a
  line holding one space and a line \<^verbatim>\<open>x\<close>, the earliest revision drops the blank line and
  leaves both newline separators, while the latest keeps the blank line with class
  \<^verbatim>\<open>spotlight\<close> and a placeholder and removes the separator after the marker line.
\<close>

theorem revisions_differ:
  "annotateEarly
     (Element ''pre'' None
       [Element ''code'' None
         [Element ''span'' (Some [''line'']) [Text ''// spotlight-start''],
          Text newline,
          Element ''span'' (Some [''line'']) [Text '' ''],
          Text newline,
          Element ''span'' (Some [''line'']) [Text ''x'']]])
   = Inr (Element ''pre'' None
       [Element ''code'' (Some [''has-spotlights''])
         [Text newline,
          Text newline,
          Element ''span'' (Some [''line'', ''spotlight'']) [Text ''x'']]])
   \<and>
   annotate
     (Element ''pre'' None
       [Element ''code'' None
         [Element ''span'' (Some [''line'']) [Text ''// spotlight-start''],
          Text newline,
          Element ''span'' (Some [''line'']) [Text '' ''],
          Text newline,
          Element ''span'' (Some [''line'']) [Text ''x'']]])
   = Inr (Element ''pre'' None
       [Element ''code'' (Some [''has-spotlights''])
         [Element ''span'' (Some [''line'', ''spotlight'']) [Text nbsp],
          Text newline,
          Element ''span'' (Some [''line'', ''spotlight'']) [Text ''x'']]])
   \<and>
   annotateEarly
     (Element ''pre'' None
       [Element ''code'' None
         [Element ''span'' (Some [''line'']) [Text ''// spotlight-start''],
          Text newline,
          Element ''span'' (Some [''line'']) [Text '' ''],
          Text newline,
          Element ''span'' (Some [''line'']) [Text ''x'']]])
   \<noteq>
   annotate
     (Element ''pre'' None
       [Element ''code'' None
         [Element ''span'' (Some [''line'']) [Text ''// spotlight-start''],
          Text newline,
          Element ''span'' (Some [''line'']) [Text '' ''],
          Text newline,
          Element ''span'' (Some [''line'']) [Text ''x'']]])"
  by code_simp

section \<open>Flags\<close>

lemma shouldRemove_markIfNewline:
  "j < length os \<Longrightarrow>
   shouldRemove (markIfNewline p os ! j)
     = (shouldRemove (os ! j) \<or> (p = Some j \<and> isNewlineText (node_of (os ! j))))"
  by (auto simp: markIfNewline_def shouldRemove_mark split: option.splits)

lemma classify_flags:
  assumes "classify kids (os, s) i = Inr (os', s')" "j < length os"
  shows "shouldRemove (os' ! j) \<longleftrightarrow>
     shouldRemove (os ! j)
     \<or> ((trim (getText (node_of (os ! i))) = startMarker
          \<or> trim (getText (node_of (os ! i))) = endMarker)
        \<and> (j = i \<or> (at kids (indexOf kids i + 1) = Some j \<and> isNewlineText (node_of (os ! j)))))"
  using assms
  by (cases rule: classify_cases) (auto simp: shouldRemove_markIfNewline shouldRemove_mark)

lemma classify_newline:
  assumes "classify kids (os, s) i = Inr (os', s')" "isLine (node_of (os ! i))"
  shows "isNewlineText (node_of (os' ! j)) = isNewlineText (node_of (os ! j))"
proof (cases "j = i")
  case False
  with assms(1) show ?thesis by (simp add: classify_frame)
next
  case True
  from classify_isLine [OF assms(1), of i] assms(2) have "isLine (node_of (os' ! i))" by simp
  with assms(2) True show ?thesis by (simp add: isLine_not_newline)
qed

lemma forEachLine_flags_mono:
  "forEachLine kids ls (os, s) = Inr (os', s') \<Longrightarrow> j < length os \<Longrightarrow>
   shouldRemove (os ! j) \<Longrightarrow> shouldRemove (os' ! j)"
proof (induction ls arbitrary: os s)
  case Nil
  then show ?case by simp
next
  case (Cons i ls)
  from Cons.prems(1) obtain os1 s1 where c: "classify kids (os, s) i = Inr (os1, s1)"
    and r: "forEachLine kids ls (os1, s1) = Inr (os', s')"
    by (rule forEachLine_Cons_Inr)
  from classify_flags [OF c Cons.prems(2)] Cons.prems(3) have "shouldRemove (os1 ! j)" by simp
  with Cons.IH [OF r] Cons.prems(2) classify_length [OF c] show ?case by simp
qed

section \<open>The cleanup\<close>

lemma indexOf_upt: "i < n \<Longrightarrow> indexOf [m..<m + n] (m + i) = int i"
proof (induction n arbitrary: m i)
  case 0
  then show ?case by simp
next
  case (Suc n)
  have u: "[m..<m + Suc n] = m # [Suc m..<Suc m + n]" by (simp add: upt_rec)
  show ?case
  proof (cases i)
    case 0
    then show ?thesis unfolding u by simp
  next
    case (Suc i')
    with Suc.prems have "i' < n" by simp
    from Suc.IH [OF this, of "Suc m"] Suc show ?thesis unfolding u by (simp add: Let_def)
  qed
qed

lemma indexOf_upt0: "i < n \<Longrightarrow> indexOf [0..<n] i = int i"
  using indexOf_upt [of i n 0] by simp

lemma at_upt0: "at [0..<n] k = (if 0 \<le> k \<and> k < int n then Some (nat k) else None)"
  by (auto simp: at_def)

lemma last_lineSpansOf:
  assumes "lineSpansOf ks \<noteq> []"
  shows "last (lineSpansOf ks) < length ks" "isLine (ks ! last (lineSpansOf ks))"
proof -
  from assms have "last (lineSpansOf ks) \<in> set (lineSpansOf ks)" by simp
  then show "last (lineSpansOf ks) < length ks" "isLine (ks ! last (lineSpansOf ks))"
    by (simp_all add: set_lineSpansOf)
qed

lemma cleanedStore_flags:
  assumes "j < length ks"
  shows "shouldRemove (cleanedStore ks ! j) \<longleftrightarrow>
     lineSpansOf ks \<noteq> [] \<and> trim (getText (ks ! last (lineSpansOf ks))) = []
     \<and> (j = last (lineSpansOf ks) \<or> (Suc j = last (lineSpansOf ks) \<and> ks ! j = Text newline))"
proof (cases "lineSpansOf ks = []")
  case True
  with assms show ?thesis
    by (simp add: cleanedStore_def trailingCleanup_def initStore_def)
next
  case False
  let ?l = "last (lineSpansOf ks)"
  from last_lineSpansOf [OF False] have l: "?l < length ks" by simp
  have nl: "isNewlineText n \<longleftrightarrow> n = Text newline" for n by (cases n) auto
  have f0: "\<not> shouldRemove (initStore ks ! j)" using assms by (simp add: initStore_def)
  show ?thesis
  proof (cases "trim (getText (ks ! ?l)) = []")
    case False
    with \<open>lineSpansOf ks \<noteq> []\<close> l f0 show ?thesis
      by (simp add: cleanedStore_def trailingCleanup_def Let_def)
  next
    case True
    have "cleanedStore ks
        = markIfNewline (at [0..<length ks] (int ?l - 1)) (mark ?l (initStore ks))"
      using \<open>lineSpansOf ks \<noteq> []\<close> True l
      by (simp add: cleanedStore_def trailingCleanup_def Let_def indexOf_upt0)
    moreover have "at [0..<length ks] (int ?l - 1) = Some j \<longleftrightarrow> Suc j = ?l"
      using l assms by (auto simp: at_upt0)
    ultimately show ?thesis
      using assms True \<open>lineSpansOf ks \<noteq> []\<close> f0
      by (simp add: shouldRemove_markIfNewline shouldRemove_mark nl) 
  qed
qed

lemma cleanedKids_eq:
  "cleanedKids ks =
     (if lineSpansOf ks \<noteq> [] \<and> trim (getText (ks ! last (lineSpansOf ks))) = []
      then filter (\<lambda>j. j \<noteq> last (lineSpansOf ks)
                       \<and> \<not> (Suc j = last (lineSpansOf ks) \<and> ks ! j = Text newline))
             [0..<length ks]
      else [0..<length ks])"
proof -
  have "cleanedKids ks = filter (\<lambda>j. \<not> shouldRemove (cleanedStore ks ! j)) [0..<length ks]"
    by (simp add: cleanedKids_def unremoved_def)
  also have "\<dots> = filter (\<lambda>j. \<not> (lineSpansOf ks \<noteq> []
       \<and> trim (getText (ks ! last (lineSpansOf ks))) = []
       \<and> (j = last (lineSpansOf ks) \<or> (Suc j = last (lineSpansOf ks) \<and> ks ! j = Text newline))))
       [0..<length ks]"
    by (rule filter_cong) (simp_all add: cleanedStore_flags)
  finally show ?thesis by (auto intro: filter_cong)
qed

section \<open>What the loop does to one line\<close>

lemma addClass_withClass: "addClass c k = Inr k' \<Longrightarrow> k' = withClass c k"
  by (auto elim!: addClass_Inr)

lemma forEachLine_append:
  "forEachLine kids (xs @ ys) st =
     (case forEachLine kids xs st of Inl e \<Rightarrow> Inl e | Inr st' \<Rightarrow> forEachLine kids ys st')"
  by (induction xs arbitrary: st) (auto split: sum.splits)

lemma classify_outcome:
  assumes "classify kids (os, s) i = Inr (os', s')" "i < length os" "isLine (node_of (os ! i))"
  shows "lineOutcome (node_of (os ! i)) (os' ! i)"
proof -
  from assms(1) show ?thesis
  proof (cases rule: classify_cases)
    case markerOnly
    with assms(2) show ?thesis
      by (simp add: lineOutcome_def shouldRemove_markIfNewline shouldRemove_mark)
  next
    case inlineStart
    with assms(2) show ?thesis by (simp add: lineOutcome_def node_of_setNode)
  next
    case inlineEnd
    with assms(2) show ?thesis by (simp add: lineOutcome_def node_of_setNode)
  next
    case (spotlight span')
    with assms(2) addClass_withClass [OF spotlight(7)] show ?thesis
      by (simp add: lineOutcome_def node_of_setNode)
  next
    case (dim span')
    with assms(2) addClass_withClass [OF dim(7)] show ?thesis
      by (simp add: lineOutcome_def node_of_setNode)
  qed
qed

lemma lineOutcome_stable:
  assumes "lineOutcome k o1" "node_of o2 = node_of o1" "shouldRemove o1 \<Longrightarrow> shouldRemove o2"
  shows "lineOutcome k o2"
proof (cases "trim (getText k) = startMarker \<or> trim (getText k) = endMarker")
  case True
  with assms(1,3) show ?thesis by (simp add: lineOutcome_def)
next
  case False
  then have "lineOutcome k o2 = lineOutcome k o1"
    by (simp add: lineOutcome_def assms(2))
  with assms(1) show ?thesis by simp
qed

lemma forEachLine_outcome:
  "forEachLine kids ls (os, s) = Inr (os', s') \<Longrightarrow> distinct ls \<Longrightarrow> i \<in> set ls \<Longrightarrow>
   i < length os \<Longrightarrow> list_all (\<lambda>i. isLine (node_of (os ! i))) ls \<Longrightarrow>
   lineOutcome (node_of (os ! i)) (os' ! i)"
proof (induction ls arbitrary: os s)
  case Nil
  from Nil(3) show ?case by simp
next
  case (Cons a ls)
  from Cons.prems(1) obtain os1 s1 where c: "classify kids (os, s) a = Inr (os1, s1)"
    and r: "forEachLine kids ls (os1, s1) = Inr (os', s')"
    by (rule forEachLine_Cons_Inr)
  from Cons.prems(5) c have all1: "list_all (\<lambda>i. isLine (node_of (os1 ! i))) ls"
    by (auto simp: list_all_iff intro: classify_isLine)
  have len1: "length os1 = length os" by (rule classify_length [OF c])
  with Cons.prems(4) have i1: "i < length os1" by simp
  show ?case
  proof (cases "i = a")
    case False
    with Cons.prems(2,3) have "distinct ls" "i \<in> set ls" by simp_all
    from Cons.IH [OF r this i1 all1] classify_frame [OF c False] show ?thesis by simp
  next
    case True
    with Cons.prems(2) have notin: "i \<notin> set ls" by simp
    from Cons.prems(5) True have "isLine (node_of (os ! i))" by simp
    with c True Cons.prems(4) have o1: "lineOutcome (node_of (os ! i)) (os1 ! i)"
      using classify_outcome by blast
    show ?thesis
    proof (rule lineOutcome_stable [OF o1])
      show "node_of (os' ! i) = node_of (os1 ! i)" by (rule forEachLine_frame [OF r notin])
      show "shouldRemove (os' ! i)" if "shouldRemove (os1 ! i)"
        by (rule forEachLine_flags_mono [OF r i1 that])
    qed
  qed
qed

section \<open>Blocks without markers, blank lines\<close>

lemma lines_of: "map ((!) ks) (lineSpansOf ks) = filter isLine ks"
proof -
  have "map ((!) ks) (filter (isLine \<circ> (!) ks) [0..<length ks])
      = filter isLine (map ((!) ks) [0..<length ks])"
    by (simp add: filter_map)
  then show ?thesis by (simp add: lineSpansOf_def map_nth comp_def)
qed

lemma lineSpansOf_Nil: "lineSpansOf ks = [] \<longleftrightarrow> filter isLine ks = []"
  using lines_of [of ks] by (metis map_is_Nil_conv)

lemma last_line: "lineSpansOf ks \<noteq> [] \<Longrightarrow> ks ! last (lineSpansOf ks) = last (filter isLine ks)"
  using lines_of [of ks] by (metis last_map)

lemma blank_no_includes:
  assumes "trim s = []"
  shows "\<not> str_includes s startMarker" "\<not> str_includes s endMarker"
proof -
  from assms have sp: "list_all isSpace s" by (simp add: trim_empty_iff)
  have "\<not> isSpace (CHR ''/'')" by (simp add: isSpace_def)
  with sp have "CHR ''/'' \<notin> set s" by (auto simp: list_all_iff)
  moreover have "CHR ''/'' \<in> set startMarker" "CHR ''/'' \<in> set endMarker"
    by (simp_all add: startMarker_def endMarker_def)
  ultimately show "\<not> str_includes s startMarker" "\<not> str_includes s endMarker"
    unfolding str_includes_def using set_mono_sublist by blast+
qed

lemma blank_not_marker:
  assumes "trim s = []"
  shows "trim s \<noteq> startMarker" "trim s \<noteq> endMarker"
  using assms by (simp_all add: startMarker_def endMarker_def)

lemma blank_no_hasMarker: "trim (getText n) = [] \<Longrightarrow> \<not> hasMarker n"
  using hasMarker_getText blank_no_includes by blast

lemma rebuild_plain:
  "rebuild t c (cleanedStore ks, cleanedKids ks, False)
     = Element t c (map ((!) ks) (cleanedKids ks))"
proof -
  have "map (\<lambda>j. node_of (cleanedStore ks ! j)) (cleanedKids ks) = map ((!) ks) (cleanedKids ks)"
    using set_cleanedKids_subset [of ks] by (intro map_cong refl) auto
  then show ?thesis by (simp add: rebuild_def)
qed

lemma processCode_plain:
  assumes "\<not> list_ex hasMarker (filter isLine ks)"
  shows "processCode (Element t c ks) = Inr (Element t c (map ((!) ks) (cleanedKids ks)))"
proof -
  have "list_ex hasMarker (filter isLine ks) = list_ex (\<lambda>i. hasMarker (ks ! i)) (lineSpansOf ks)"
    unfolding lines_of [symmetric] by (simp add: list_ex_iff)
  with assms have no: "\<not> list_ex (\<lambda>i. hasMarker (ks ! i)) (lineSpansOf ks)" by simp
  obtain os kids hs where r: "blockPass ks = Inr (os, kids, hs)"
    using blockPass_total [of ks] by (metis prod_cases3)
  from r no have "os = cleanedStore ks" "kids = cleanedKids ks" "\<not> hs"
    by (cases rule: blockPass_Inr; simp)+
  with r show ?thesis by (simp add: rebuild_plain)
qed

text \<open>
  Claim C4, as amended. In a code block where no line's concatenated text contains
  a marker, the code element keeps its class list and no line gains a class. The child
  list is unchanged unless the last line is blank; then that line, and the text node
  before it when its value is a single newline, are removed and nothing else changes.
\<close>

theorem no_marker_block:
  assumes "list_all (\<lambda>k. \<not> str_includes (getText k) startMarker
                        \<and> \<not> str_includes (getText k) endMarker) (filter isLine ks)"
  shows "processCode (Element t c ks) =
     Inr (Element t c
       (if filter isLine ks \<noteq> [] \<and> trim (getText (last (filter isLine ks))) = []
        then map ((!) ks)
               (filter (\<lambda>j. j \<noteq> last (lineSpansOf ks)
                          \<and> \<not> (Suc j = last (lineSpansOf ks) \<and> ks ! j = Text newline))
                  [0..<length ks])
        else ks))"
proof -
  from assms have "\<not> list_ex hasMarker (filter isLine ks)"
    using hasMarker_getText by (auto simp: list_all_iff list_ex_iff)
  then have p: "processCode (Element t c ks) = Inr (Element t c (map ((!) ks) (cleanedKids ks)))"
    by (rule processCode_plain)
  show ?thesis
  proof (cases "filter isLine ks = []")
    case True
    then have "lineSpansOf ks = []" by (simp add: lineSpansOf_Nil)
    with True p show ?thesis by (simp add: cleanedKids_eq map_nth)
  next
    case False
    then have n: "lineSpansOf ks \<noteq> []" by (simp add: lineSpansOf_Nil)
    from last_line [OF n] False n p show ?thesis
      by (simp add: cleanedKids_eq map_nth)
  qed
qed

theorem no_marker_block_witness:
  "processCode (Element ''code'' None
     [Element ''span'' (Some [''line'']) [Text ''a''], Text newline,
      Element ''span'' (Some [''line'']) [Text '' ''], Text newline])
   = Inr (Element ''code'' None
     [Element ''span'' (Some [''line'']) [Text ''a''], Text newline])"
proof -
  let ?ks = "[Element ''span'' (Some [''line'']) [Text ''a''], Text newline,
      Element ''span'' (Some [''line'']) [Text '' ''], Text newline]"
  have h: "list_all (\<lambda>k. \<not> str_includes (getText k) startMarker
                        \<and> \<not> str_includes (getText k) endMarker) (filter isLine ?ks)"
    by code_simp
  have e: "(if filter isLine ?ks \<noteq> [] \<and> trim (getText (last (filter isLine ?ks))) = []
        then map ((!) ?ks)
               (filter (\<lambda>j. j \<noteq> last (lineSpansOf ?ks)
                          \<and> \<not> (Suc j = last (lineSpansOf ?ks) \<and> ?ks ! j = Text newline))
                  [0..<length ?ks])
        else ?ks) = [Element ''span'' (Some [''line'']) [Text ''a''], Text newline]"
    by code_simp
  from no_marker_block [OF h, of "''code''" None] show ?thesis unfolding e .
qed

theorem no_marker_block_changed:
  "annotate (Element ''pre'' None [Element ''code'' None
     [Element ''span'' (Some [''line'']) [Text ''x''], Text newline,
      Element ''span'' (Some [''line'']) []]])
   = Inr (Element ''pre'' None [Element ''code'' None
       [Element ''span'' (Some [''line'']) [Text ''x'']]])"
  by code_simp

section \<open>The trailing blank line\<close>

lemma classify_blank:
  assumes "trim (getText (node_of (os ! l))) = []" "isLine (node_of (os ! l))"
  shows "\<exists>n s'. classify kids (os, s) l = Inr (setNode l n os, s')"
proof -
  obtain a where a: "addClass ''spotlight'' (node_of (os ! l)) = Inr a"
    using addClass_isLine [OF assms(2)] by blast
  obtain b where b: "addClass ''dim'' (node_of (os ! l)) = Inr b"
    using addClass_isLine [OF assms(2)] by blast
  from blank_no_includes [OF assms(1)] blank_not_marker [OF assms(1)] a b assms(1)
  show ?thesis by (cases s) (auto simp: classify_def Let_def)
qed

lemma rebuild_setNode:
  assumes "l \<notin> set kids"
  shows "rebuild t c (setNode l n os, unremoved (setNode l n os) kids, hs)
       = rebuild t c (os, unremoved os kids, hs)"
proof -
  have u: "unremoved (setNode l n os) kids = unremoved os kids"
    by (simp add: unremoved_def)
  have "node_of (setNode l n os ! j) = node_of (os ! j)" if "j \<in> set (unremoved os kids)" for j
  proof -
    from that set_unremoved_subset [of os kids] assms have "j \<noteq> l" by blast
    then show ?thesis by simp
  qed
  then have "map (\<lambda>j. node_of (setNode l n os ! j)) (unremoved os kids)
      = map (\<lambda>j. node_of (os ! j)) (unremoved os kids)"
    by (intro map_cong refl)
  with u show ?thesis by (simp add: rebuild_def)
qed

lemma last_not_in_cleanedKids:
  assumes "lineSpansOf ks \<noteq> []" "trim (getText (ks ! last (lineSpansOf ks))) = []"
  shows "last (lineSpansOf ks) \<notin> set (cleanedKids ks)"
  using assms by (simp add: cleanedKids_eq)

lemma spotlightPass_without_last:
  assumes ne: "lineSpansOf ks \<noteq> []"
    and blank: "trim (getText (ks ! last (lineSpansOf ks))) = []"
  shows "(case spotlightPass (lineSpansOf ks) (cleanedStore ks) (cleanedKids ks) of
            Inl e \<Rightarrow> Inl e | Inr r \<Rightarrow> Inr (rebuild t c r))
       = (case spotlightPass (butlast (lineSpansOf ks)) (cleanedStore ks) (cleanedKids ks) of
            Inl e \<Rightarrow> Inl e | Inr r \<Rightarrow> Inr (rebuild t c r))"
proof -
  let ?ls = "lineSpansOf ks" and ?l = "last (lineSpansOf ks)"
  let ?os = "cleanedStore ks" and ?kids = "cleanedKids ks"
  have split: "?ls = butlast ?ls @ [?l]" using ne by simp
  have l: "?l < length ks" "isLine (ks ! ?l)" using last_lineSpansOf [OF ne] by simp_all
  have notin: "?l \<notin> set (butlast ?ls)"
    using distinct_lineSpansOf [of ks] split by (metis distinct_butlast not_distinct_conv_prefix
      append_butlast_last_id ne distinct_append disjoint_iff list.set_intros(1))
  have nm: "\<not> hasMarker (node_of (?os ! ?l))" using l blank by (simp add: blank_no_hasMarker)
  have ex: "list_ex (\<lambda>i. hasMarker (node_of (?os ! i))) ?ls
      = list_ex (\<lambda>i. hasMarker (node_of (?os ! i))) (butlast ?ls)"
    using nm by (subst split) simp
  show ?thesis
  proof (cases "list_ex (\<lambda>i. hasMarker (node_of (?os ! i))) (butlast ?ls)")
    case False
    with ex show ?thesis by (simp add: spotlightPass_def)
  next
    case True
    show ?thesis
    proof (cases "forEachLine ?kids (butlast ?ls) (?os, False)")
      case (Inl e)
      have "forEachLine ?kids ?ls (?os, False) = Inl e"
        by (subst split) (simp add: forEachLine_append Inl)
      with Inl True ex show ?thesis by (simp add: spotlightPass_def)
    next
      case (Inr st)
      obtain os' s' where st: "st = (os', s')" by (cases st)
      from Inr st have f: "forEachLine ?kids (butlast ?ls) (?os, False) = Inr (os', s')" by simp
      have "node_of (os' ! ?l) = node_of (?os ! ?l)" by (rule forEachLine_frame [OF f notin])
      with l blank have b': "trim (getText (node_of (os' ! ?l))) = []"
        and l': "isLine (node_of (os' ! ?l))" by simp_all
      from classify_blank [OF b' l', of ?kids s'] obtain n s'' where
        c: "classify ?kids (os', s') ?l = Inr (setNode ?l n os', s'')" by blast
      have "forEachLine ?kids ?ls (?os, False) = Inr (setNode ?l n os', s'')"
        by (subst split) (simp add: forEachLine_append f c)
      with f True ex show ?thesis
        by (simp add: spotlightPass_def
            rebuild_setNode [OF last_not_in_cleanedKids [OF ne blank]])
    qed
  qed
qed

text \<open>
  Claim C5. When the last line span of a code block has empty or whitespace-only text,
  that line, and the text node immediately before it when its value is exactly a
  single newline, are gone from the child list that the marker test, the loop and the
  final filter work on, whether or not the block has markers. The result of the block
  is the result that the pass gives when the removed line is left out of the line list,
  so the line takes no part in the spotlighting state; and the children of the result
  are drawn from the child list without the removed nodes.
\<close>

theorem trailing_blank_removed:
  assumes "lineSpansOf ks \<noteq> []"
    and "trim (getText (ks ! last (lineSpansOf ks))) = []"
  shows "cleanedKids ks
           = filter (\<lambda>j. j \<noteq> last (lineSpansOf ks)
                        \<and> \<not> (Suc j = last (lineSpansOf ks) \<and> ks ! j = Text newline))
               [0..<length ks]
       \<and> processCode (Element t c ks)
           = (case spotlightPass (butlast (lineSpansOf ks)) (cleanedStore ks) (cleanedKids ks) of
                Inl e \<Rightarrow> Inl e
              | Inr r \<Rightarrow> Inr (rebuild t c r))
       \<and> (\<exists>os kids hs. blockPass ks = Inr (os, kids, hs)
            \<and> processCode (Element t c ks) = Inr (rebuild t c (os, kids, hs))
            \<and> set kids \<subseteq> set (cleanedKids ks))"
proof -
  have 1: "cleanedKids ks
           = filter (\<lambda>j. j \<noteq> last (lineSpansOf ks)
                        \<and> \<not> (Suc j = last (lineSpansOf ks) \<and> ks ! j = Text newline))
               [0..<length ks]"
    using assms by (simp add: cleanedKids_eq)
  have 2: "processCode (Element t c ks)
           = (case spotlightPass (butlast (lineSpansOf ks)) (cleanedStore ks) (cleanedKids ks) of
                Inl e \<Rightarrow> Inl e
              | Inr r \<Rightarrow> Inr (rebuild t c r))"
    using spotlightPass_without_last [OF assms, of t c] by (simp add: blockPass_def)
  obtain os kids hs where r: "blockPass ks = Inr (os, kids, hs)"
    using blockPass_total [of ks] by (metis prod_cases3)
  from r have "set kids \<subseteq> set (cleanedKids ks)"
    by (cases rule: blockPass_Inr) (auto simp: unremoved_def)
  with r have 3: "\<exists>os kids hs. blockPass ks = Inr (os, kids, hs)
            \<and> processCode (Element t c ks) = Inr (rebuild t c (os, kids, hs))
            \<and> set kids \<subseteq> set (cleanedKids ks)"
    by auto
  from 1 2 3 show ?thesis by blast
qed

theorem trailing_blank_removed_witness:
  "cleanedKids
     [Element ''span'' (Some [''line'']) [Text ''// spotlight-start''], Text newline,
      Element ''span'' (Some [''line'']) [Text ''b''], Text newline,
      Element ''span'' (Some [''line'']) [Text '' '']]
   = [0, 1, 2]
   \<and> processCode (Element ''code'' None
     [Element ''span'' (Some [''line'']) [Text ''// spotlight-start''], Text newline,
      Element ''span'' (Some [''line'']) [Text ''b''], Text newline,
      Element ''span'' (Some [''line'']) [Text '' '']])
   = Inr (Element ''code'' (Some [''has-spotlights''])
       [Element ''span'' (Some [''line'', ''spotlight'']) [Text ''b'']])"
proof -
  let ?ks = "[Element ''span'' (Some [''line'']) [Text ''// spotlight-start''], Text newline,
      Element ''span'' (Some [''line'']) [Text ''b''], Text newline,
      Element ''span'' (Some [''line'']) [Text '' '']]"
  have h1: "lineSpansOf ?ks \<noteq> []" by code_simp
  have h2: "trim (getText (?ks ! last (lineSpansOf ?ks))) = []" by code_simp
  have e1: "filter (\<lambda>j. j \<noteq> last (lineSpansOf ?ks)
                        \<and> \<not> (Suc j = last (lineSpansOf ?ks) \<and> ?ks ! j = Text newline))
               [0..<length ?ks] = [0, 1, 2]"
    by code_simp
  have e2: "(case spotlightPass (butlast (lineSpansOf ?ks)) (cleanedStore ?ks) (cleanedKids ?ks) of
                Inl e \<Rightarrow> Inl e
              | Inr r \<Rightarrow> Inr (rebuild ''code'' None r))
      = Inr (Element ''code'' (Some [''has-spotlights''])
       [Element ''span'' (Some [''line'', ''spotlight'']) [Text ''b'']])"
    by code_simp
  from trailing_blank_removed [OF h1 h2, of "''code''" None] show ?thesis
    unfolding e1 e2 by blast
qed

section \<open>Totality\<close>

lemma mapE_total:
  "(\<And>x. x \<in> set xs \<Longrightarrow> \<exists>y. f x = Inr y) \<Longrightarrow> \<exists>ys. mapE f xs = Inr ys"
proof (induction xs)
  case Nil
  then show ?case by simp
next
  case (Cons x xs)
  from Cons.prems obtain y where "f x = Inr y" by auto
  moreover from Cons obtain ys where "mapE f xs = Inr ys" by auto
  ultimately show ?case by simp
qed

lemma annotate_total: "\<exists>out. annotate n = Inr out"
proof (induction n rule: annotate.induct)
  case (1 v)
  then show ?case by simp
next
  case (2 t c ks)
  obtain n' where v: "visitor (Element t c ks) = Inr n'" using visitor_total by blast
  show ?case
  proof (cases n')
    case (Text v')
    with v show ?thesis by simp
  next
    case (Element t' c' ks')
    have "\<exists>y. annotate x = Inr y" if "x \<in> set ks'" for x
      using "2.IH" [OF v Element that] .
    then obtain ks'' where "mapE annotate ks' = Inr ks''" using mapE_total by blast
    with v Element show ?thesis by simp
  qed
qed

lemma processCode_no_lines:
  assumes "filter isLine ks = []"
  shows "processCode (Element t c ks) = Inr (Element t c ks)"
proof -
  from assms have "\<not> list_ex hasMarker (filter isLine ks)" by simp
  from processCode_plain [OF this, of t c] assms show ?thesis
    by (simp add: cleanedKids_eq lineSpansOf_Nil map_nth)
qed

lemma processCode_no_marker_unchanged:
  assumes "\<not> list_ex hasMarker (filter isLine ks)"
    and "filter isLine ks \<noteq> []" "trim (getText (last (filter isLine ks))) \<noteq> []"
  shows "processCode (Element t c ks) = Inr (Element t c ks)"
proof -
  from assms(2) have n: "lineSpansOf ks \<noteq> []" by (simp add: lineSpansOf_Nil)
  from processCode_plain [OF assms(1), of t c] last_line [OF n] assms(3) show ?thesis
    by (simp add: cleanedKids_eq map_nth)
qed

text \<open>
  Claim C8, as amended. On every tree of element and text nodes \<open>annotate\<close> returns a
  tree and raises no error. The visitor leaves a \<^verbatim>\<open>pre\<close> element with no \<^verbatim>\<open>code\<close> child
  unchanged; a code element with no line span is left unchanged; a code element in
  which the marker test finds no marker keeps its class list, and is left unchanged
  when its last line span is not blank.
\<close>

theorem annotate_never_raises:
  "(\<exists>out. annotate tree = Inr out)
   \<and> (filter isCode ps = [] \<longrightarrow> visitor (Element ''pre'' pc ps) = Inr (Element ''pre'' pc ps))
   \<and> (filter isLine ks = [] \<longrightarrow> processCode (Element t c ks) = Inr (Element t c ks))
   \<and> (\<not> list_ex hasMarker (filter isLine ks) \<longrightarrow>
        (\<exists>ks'. processCode (Element t c ks) = Inr (Element t c ks')))
   \<and> (\<not> list_ex hasMarker (filter isLine ks) \<and> filter isLine ks \<noteq> []
        \<and> trim (getText (last (filter isLine ks))) \<noteq> [] \<longrightarrow>
        processCode (Element t c ks) = Inr (Element t c ks))"
proof -
  have "filter isCode ps = [] \<Longrightarrow> visitor (Element ''pre'' pc ps) = Inr (Element ''pre'' pc ps)"
    by (simp add: visitor_def)
  with annotate_total processCode_no_lines processCode_no_marker_unchanged processCode_plain
  show ?thesis by blast
qed

theorem annotate_never_raises_witness:
  "(\<exists>out. annotate (Element ''pre'' None [Text ''// spotlight-start'']) = Inr out)
   \<and> visitor (Element ''pre'' None [Text ''// spotlight-start''])
       = Inr (Element ''pre'' None [Text ''// spotlight-start''])
   \<and> processCode (Element ''code'' None [Text ''// spotlight-start''])
       = Inr (Element ''code'' None [Text ''// spotlight-start''])
   \<and> processCode (Element ''code'' None [Element ''span'' (Some [''line'']) [Text ''a'']])
       = Inr (Element ''code'' None [Element ''span'' (Some [''line'']) [Text ''a'']])"
proof -
  have h1: "filter isCode [Text ''// spotlight-start''] = []" by simp
  have h2: "filter isLine [Text ''// spotlight-start''] = []" by simp
  let ?ks = "[Element ''span'' (Some [''line'']) [Text ''a'']]"
  have h3: "\<not> list_ex hasMarker (filter isLine ?ks) \<and> filter isLine ?ks \<noteq> []
        \<and> trim (getText (last (filter isLine ?ks))) \<noteq> []" by code_simp
  from annotate_never_raises
    [where tree = "Element ''pre'' None [Text ''// spotlight-start'']"
       and ps = "[Text ''// spotlight-start'']" and pc = None
       and ks = "[Text ''// spotlight-start'']" and t = "''code''" and c = None] h1 h2
  have a: "(\<exists>out. annotate (Element ''pre'' None [Text ''// spotlight-start'']) = Inr out)
   \<and> visitor (Element ''pre'' None [Text ''// spotlight-start''])
       = Inr (Element ''pre'' None [Text ''// spotlight-start''])
   \<and> processCode (Element ''code'' None [Text ''// spotlight-start''])
       = Inr (Element ''code'' None [Text ''// spotlight-start''])" by blast
  from annotate_never_raises [where ks = ?ks and t = "''code''" and c = None] h3
  have "processCode (Element ''code'' None ?ks) = Inr (Element ''code'' None ?ks)" by blast
  with a show ?thesis by blast
qed

theorem marker_free_block_not_unchanged:
  "\<not> list_ex hasMarker
       (filter isLine [Element ''span'' (Some [''line'']) [Text ''let y = 2;''], Text newline,
          Element ''span'' (Some [''line'']) [Text ''  ''], Text newline])
   \<and> annotate (Element ''pre'' None [Element ''code'' None
        [Element ''span'' (Some [''line'']) [Text ''let y = 2;''], Text newline,
         Element ''span'' (Some [''line'']) [Text ''  ''], Text newline]])
     = Inr (Element ''pre'' None [Element ''code'' None
        [Element ''span'' (Some [''line'']) [Text ''let y = 2;''], Text newline]])"
  by code_simp

section \<open>The lines that survive\<close>

lemma forEachLine_flags_source:
  "forEachLine kids ls (os, s) = Inr (os', s') \<Longrightarrow> j < length os \<Longrightarrow> distinct ls \<Longrightarrow>
   list_all (\<lambda>i. isLine (node_of (os ! i))) ls \<Longrightarrow> shouldRemove (os' ! j) \<Longrightarrow>
   shouldRemove (os ! j) \<or> isNewlineText (node_of (os ! j))
   \<or> (j \<in> set ls \<and> (trim (getText (node_of (os ! j))) = startMarker
                       \<or> trim (getText (node_of (os ! j))) = endMarker))"
proof (induction ls arbitrary: os s)
  case Nil
  then show ?case by simp
next
  case (Cons a ls)
  from Cons.prems(1) obtain os1 s1 where c: "classify kids (os, s) a = Inr (os1, s1)"
    and r: "forEachLine kids ls (os1, s1) = Inr (os', s')"
    by (rule forEachLine_Cons_Inr)
  from Cons.prems(4) have la: "isLine (node_of (os ! a))" by simp
  from Cons.prems(4) c have all1: "list_all (\<lambda>i. isLine (node_of (os1 ! i))) ls"
    by (auto simp: list_all_iff intro: classify_isLine)
  from classify_length [OF c] Cons.prems(2) have j1: "j < length os1" by simp
  from Cons.prems(3) have d: "distinct ls" and na: "a \<notin> set ls" by simp_all
  from Cons.IH [OF r j1 d all1 Cons.prems(5)]
  consider "shouldRemove (os1 ! j)" | "isNewlineText (node_of (os1 ! j))"
    | "j \<in> set ls" "trim (getText (node_of (os1 ! j))) = startMarker
                      \<or> trim (getText (node_of (os1 ! j))) = endMarker" by blast
  then show ?case
  proof cases
    case 1
    with classify_flags [OF c Cons.prems(2)] show ?thesis by auto
  next
    case 2
    with classify_newline [OF c la, of j] show ?thesis by simp
  next
    case 3
    with na have "j \<noteq> a" by auto
    with 3 classify_frame [OF c, of j] show ?thesis by simp
  qed
qed

lemma isLine_Element:
  assumes "isLine k"
  obtains cl cs where "k = Element ''span'' (Some cl) cs" "''line'' \<in> set cl"
  using assms by (cases k) (auto split: option.splits)

lemma blockPass_sorted:
  assumes "blockPass ks = Inr (os, kids, hs)"
  shows "sorted_wrt (<) kids"
proof -
  have "sorted_wrt (<) (cleanedKids ks)"
    by (simp add: cleanedKids_def unremoved_def sorted_wrt_filter)
  with assms show ?thesis
    by (cases rule: blockPass_Inr) (simp_all add: unremoved_def sorted_wrt_filter)
qed

lemma surviving_position:
  assumes "blockPass ks = Inr (os, kids, hs)" "j \<in> set kids"
    "isLine (ks ! j) \<or> isLine (node_of (os ! j))"
  shows "j < length ks \<and> isLine (ks ! j) \<and> isLine (node_of (os ! j))
       \<and> (if hs then lineOutcome (ks ! j) (os ! j) \<and> \<not> shouldRemove (os ! j)
          else node_of (os ! j) = ks ! j \<and> \<not> hasMarker (ks ! j))"
proof -
  from blockPass_kids [OF assms(1)] assms(2) have j: "j < length ks" by auto
  from assms(1) show ?thesis
  proof (cases rule: blockPass_Inr)
    case plain
    with j assms(3) have lj: "isLine (ks ! j)" by simp
    with j have "j \<in> set (lineSpansOf ks)" by (simp add: set_lineSpansOf)
    with plain(1) have "\<not> hasMarker (ks ! j)" by (auto simp: list_ex_iff)
    with plain j lj show ?thesis by simp
  next
    case (spotlights s)
    from assms(2) spotlights(3) have nr: "\<not> shouldRemove (os ! j)"
      by (simp add: unremoved_def)
    have lj: "isLine (ks ! j)"
    proof (rule ccontr)
      assume n: "\<not> isLine (ks ! j)"
      then have "j \<notin> set (lineSpansOf ks)" by (simp add: set_lineSpansOf)
      from forEachLine_frame [OF spotlights(2) this] j assms(3) n show False by simp
    qed
    with j have mem: "j \<in> set (lineSpansOf ks)" by (simp add: set_lineSpansOf)
    from forEachLine_outcome [OF spotlights(2) distinct_lineSpansOf mem _ lineSpans_cleaned] j
    have o: "lineOutcome (ks ! j) (os ! j)" by simp
    from lj j have "isLine (node_of (cleanedStore ks ! j))" by simp
    then have "isLine (node_of (os ! j))" by (rule forEachLine_isLine [OF spotlights(2)])
    with j lj nr o spotlights(4) show ?thesis by simp
  qed
qed

lemma processCode_blockPass:
  "blockPass ks = Inr (os, kids, hs) \<Longrightarrow>
   processCode (Element t c ks)
     = Inr (Element t (if hs then withHasSpotlights c else c) (map (\<lambda>j. node_of (os ! j)) kids))"
  by (simp add: rebuild_def)

text \<open>
  Claim C3, as amended. Take a code element to which \<open>annotate\<close> adds \<^verbatim>\<open>has-spotlights\<close>,
  with children \<open>ks\<close>. The children of the output are the objects \<open>os ! j\<close> for the
  positions \<open>j\<close> of \<open>kids\<close>, in increasing order. For every such position \<open>j\<close> that holds
  a line span, in the input or in the output: it holds a line span in both, the input
  line \<open>ks ! j\<close> is not marker-only, and the class list of the output line at \<open>j\<close> is
  that of the input line at \<open>j\<close> with exactly one class appended, \<^verbatim>\<open>spotlight\<close> or
  \<^verbatim>\<open>dim\<close>, when the text of the input line holds no marker, and is unchanged when it
  holds one (an inline marker): that line gets neither class.
\<close>

theorem state_classes:
  assumes "blockPass ks = Inr (os, kids, True)"
    and "j \<in> set kids"
    and "isLine (ks ! j) \<or> isLine (node_of (os ! j))"
  shows "processCode (Element t c ks)
           = Inr (Element t (withHasSpotlights c) (map (\<lambda>j. node_of (os ! j)) kids))
       \<and> sorted_wrt (<) kids \<and> j < length ks
       \<and> isLine (ks ! j) \<and> isLine (node_of (os ! j))
       \<and> trim (getText (ks ! j)) \<noteq> startMarker \<and> trim (getText (ks ! j)) \<noteq> endMarker
       \<and> (\<exists>cl. className (ks ! j) = Some cl
            \<and> (if str_includes (getText (ks ! j)) startMarker
                  \<or> str_includes (getText (ks ! j)) endMarker
               then className (node_of (os ! j)) = Some cl
               else className (node_of (os ! j)) = Some (cl @ [''spotlight''])
                    \<or> className (node_of (os ! j)) = Some (cl @ [''dim''])))"
proof -
  from surviving_position [OF assms]
  have j: "j < length ks" and lj: "isLine (ks ! j)" and lo: "isLine (node_of (os ! j))"
    and o: "lineOutcome (ks ! j) (os ! j)" and nr: "\<not> shouldRemove (os ! j)" by simp_all
  from lj obtain cl cs where k: "ks ! j = Element ''span'' (Some cl) cs"
    by (rule isLine_Element)
  from o nr k have "trim (getText (ks ! j)) \<noteq> startMarker \<and> trim (getText (ks ! j)) \<noteq> endMarker
      \<and> (if str_includes (getText (ks ! j)) startMarker \<or> str_includes (getText (ks ! j)) endMarker
         then className (node_of (os ! j)) = Some cl
         else className (node_of (os ! j)) = Some (cl @ [''spotlight''])
              \<or> className (node_of (os ! j)) = Some (cl @ [''dim'']))"
    unfolding lineOutcome_def by (auto split: if_splits)
  moreover from k have "className (ks ! j) = Some cl" by simp
  moreover note processCode_blockPass [OF assms(1), of t c] blockPass_sorted [OF assms(1)] j lj lo
  ultimately show ?thesis by simp
qed

theorem state_classes_witness:
  "blockPass
     [Element ''span'' (Some [''line'']) [Text ''// spotlight-start''], Text newline,
      Element ''span'' (Some [''line'']) [Text ''b'']]
   = Inr ([\<lparr>node_of = Element ''span'' (Some [''line'']) [Text ''// spotlight-start''],
             shouldRemove = True\<rparr>,
           \<lparr>node_of = Text newline, shouldRemove = True\<rparr>,
           \<lparr>node_of = Element ''span'' (Some [''line'', ''spotlight'']) [Text ''b''],
             shouldRemove = False\<rparr>],
          [2], True)
   \<and> processCode (Element ''code'' None
        [Element ''span'' (Some [''line'']) [Text ''// spotlight-start''], Text newline,
         Element ''span'' (Some [''line'']) [Text ''b'']])
     = Inr (Element ''code'' (Some [''has-spotlights''])
         [Element ''span'' (Some [''line'', ''spotlight'']) [Text ''b'']])
   \<and> \<not> str_includes ''b'' startMarker \<and> \<not> str_includes ''b'' endMarker
   \<and> (\<exists>cl. className (Element ''span'' (Some [''line'']) [Text ''b'']) = Some cl
        \<and> (className (Element ''span'' (Some [''line'', ''spotlight'']) [Text ''b''])
             = Some (cl @ [''spotlight''])
           \<or> className (Element ''span'' (Some [''line'', ''spotlight'']) [Text ''b''])
             = Some (cl @ [''dim''])))"
proof -
  let ?ks = "[Element ''span'' (Some [''line'']) [Text ''// spotlight-start''], Text newline,
      Element ''span'' (Some [''line'']) [Text ''b'']]"
  let ?os = "[\<lparr>node_of = Element ''span'' (Some [''line'']) [Text ''// spotlight-start''],
             shouldRemove = True\<rparr>,
           \<lparr>node_of = Text newline, shouldRemove = True\<rparr>,
           \<lparr>node_of = Element ''span'' (Some [''line'', ''spotlight'']) [Text ''b''],
             shouldRemove = False\<rparr>]"
  have h1: "blockPass ?ks = Inr (?os, [2], True)" by code_simp
  have h2: "(2::nat) \<in> set [2]" by simp
  have h3: "isLine (?ks ! 2) \<or> isLine (node_of (?os ! 2))" by simp
  have k: "?ks ! 2 = Element ''span'' (Some [''line'']) [Text ''b'']"
    and k': "node_of (?os ! 2) = Element ''span'' (Some [''line'', ''spotlight'']) [Text ''b'']"
    and m: "map (\<lambda>j. node_of (?os ! j)) [2]
        = [Element ''span'' (Some [''line'', ''spotlight'']) [Text ''b'']]"
    and w: "withHasSpotlights None = Some [''has-spotlights'']"
    by (simp_all add: withHasSpotlights_def)
  have g: "getText (Element ''span'' (Some [''line'']) [Text ''b'']) = ''b''" by simp
  have n: "\<not> str_includes ''b'' startMarker" "\<not> str_includes ''b'' endMarker" by code_simp+
  from state_classes [OF h1 h2 h3, where t = "''code''" and c = None] h1 n
  show ?thesis unfolding k k' m w g by (simp only: if_False simp_thms)
qed

theorem inline_marker_line_has_neither_class:
  "annotate (Element ''pre'' None [Element ''code'' None
     [Element ''span'' (Some [''line'']) [Text ''f(); // spotlight-start''], Text newline,
      Element ''span'' (Some [''line'']) [Text ''g();'']]])
   = Inr (Element ''pre'' None [Element ''code'' (Some [''has-spotlights''])
       [Element ''span'' (Some [''line'']) [Text ''f(); ''], Text newline,
        Element ''span'' (Some [''line'', ''spotlight'']) [Text ''g();'']]])"
  by code_simp

section \<open>The text values of a line\<close>

lemma sublist_concat_self: "x \<in> set xs \<Longrightarrow> sublist x (concat xs)"
  using sublist_concat_member [of x xs x] by simp

lemma textValues_sublist: "v \<in> set (textValues k) \<Longrightarrow> sublist v (getText k)"
proof (induction k)
  case (Text x)
  then show ?case by simp
next
  case (Element t c ks)
  from Element.prems obtain k where k: "k \<in> set ks" "v \<in> set (textValues k)" by auto
  with Element.IH have "sublist v (getText k)" by blast
  moreover from k(1) have "sublist (getText k) (concat (map getText ks))"
    by (intro sublist_concat_self) simp
  ultimately show ?case by (metis getText.simps(2) sublist_order.order_trans)
qed

lemma hasMarker_textValues: "hasMarker k = list_ex (\<lambda>v. \<not> markerFree v) (textValues k)"
proof (induction k)
  case (Text x)
  then show ?case by (simp add: markerFree_def)
next
  case (Element t c ks)
  then show ?case by (auto simp: list_ex_iff)
qed

lemma textValues_withClass [simp]: "textValues (withClass c k) = textValues k"
  by (cases "(c, k)" rule: withClass.cases) simp_all

lemma markerFree_nbsp: "markerFree nbsp"
  by (simp add: markerFree_def str_includes_def nbsp_def startMarker_def endMarker_def
      sublist_Cons_right)

lemma markerFree_text:
  assumes "\<not> str_includes (getText k) startMarker" "\<not> str_includes (getText k) endMarker"
    "v \<in> set (textValues k)"
  shows "markerFree v"
  using assms textValues_sublist [OF assms(3)]
  unfolding markerFree_def str_includes_def by (metis sublist_order.order_trans)

section \<open>Blank lines in a spotlight region\<close>

lemma blockPass_spotlights:
  assumes "list_ex hasMarker (filter isLine ks)"
    and "forEachLine (cleanedKids ks) (lineSpansOf ks) (cleanedStore ks, False) = Inr (os, s)"
  shows "blockPass ks = Inr (os, unremoved os (cleanedKids ks), True)"
proof -
  have "list_ex hasMarker (filter isLine ks)
      = list_ex (\<lambda>i. hasMarker (node_of (cleanedStore ks ! i))) (lineSpansOf ks)"
    unfolding lines_of [symmetric] by (auto simp: list_ex_iff set_lineSpansOf)
  with assms show ?thesis by (simp add: blockPass_def spotlightPass_def)
qed

text \<open>
  Claim C7, as amended. In a block that has markers, take a line span that is not the
  last line span, whose text is empty or whitespace-only, and that the loop reaches
  while the spotlighting state is true. The line stays in the child list of the code
  element, gains the class \<^verbatim>\<open>spotlight\<close>, and its children are replaced by a single text
  node holding a no-break space. (A blank last line span is removed by the cleanup.)
\<close>

theorem blank_spotlighted_line:
  assumes "list_ex hasMarker (filter isLine ks)"
    and "lineSpansOf ks = before @ i # after" and "after \<noteq> []"
    and "forEachLine (cleanedKids ks) before (cleanedStore ks, False) = Inr (os1, True)"
    and "trim (getText (ks ! i)) = []"
  shows "\<exists>os kids cl cs. blockPass ks = Inr (os, kids, True) \<and> i \<in> set kids
      \<and> ks ! i = Element ''span'' (Some cl) cs
      \<and> node_of (os ! i) = Element ''span'' (Some (cl @ [''spotlight''])) [Text nbsp]"
proof -
  let ?kids = "cleanedKids ks" and ?cs = "cleanedStore ks"
  have d: "distinct (before @ i # after)" using distinct_lineSpansOf [of ks] assms(2) by simp
  then have nb: "i \<notin> set before" and na: "i \<notin> set after" by auto
  have "i \<in> set (lineSpansOf ks)" using assms(2) by simp
  then have i: "i < length ks" and li: "isLine (ks ! i)" by (simp_all add: set_lineSpansOf)
  from li obtain cl cs where k: "ks ! i = Element ''span'' (Some cl) cs"
    by (rule isLine_Element)
  have len1: "length os1 = length ks" using forEachLine_length [OF assms(4)] by simp
  have n1: "node_of (os1 ! i) = ks ! i" using forEachLine_frame [OF assms(4) nb] i by simp
  let ?new = "Element ''span'' (Some (cl @ [''spotlight''])) [Text nbsp]"
  let ?os2 = "setNode i ?new os1"
  have c: "classify ?kids (os1, True) i = Inr (?os2, True)"
    using blank_no_includes [OF assms(5)] blank_not_marker [OF assms(5)] assms(5) n1 k
    by (simp add: classify_def Let_def)
  have all0: "list_all (\<lambda>j. isLine (node_of (?cs ! j))) (before @ i # after)"
    using lineSpans_cleaned [of ks] assms(2) by simp
  have all2: "list_all (\<lambda>j. isLine (node_of (?os2 ! j))) after"
  proof -
    have "isLine (node_of (?os2 ! j))" if "j \<in> set after" for j
    proof -
      from all0 that have "isLine (node_of (?cs ! j))" by (simp add: list_all_iff)
      then have "isLine (node_of (os1 ! j))" by (rule forEachLine_isLine [OF assms(4)])
      then show ?thesis by (rule classify_isLine [OF c])
    qed
    then show ?thesis by (simp add: list_all_iff)
  qed
  from forEachLine_total [OF all2] obtain os3 s3 where
    f3: "forEachLine ?kids after (?os2, True) = Inr (os3, s3)" by (metis surj_pair)
  have whole: "forEachLine ?kids (lineSpansOf ks) (?cs, False) = Inr (os3, s3)"
    unfolding assms(2) by (simp add: forEachLine_append assms(4) c f3)
  have r: "blockPass ks = Inr (os3, unremoved os3 ?kids, True)"
    by (rule blockPass_spotlights [OF assms(1) whole])
  have n3: "node_of (os3 ! i) = ?new"
    using forEachLine_frame [OF f3 na] i len1 by (simp add: node_of_setNode)
  have last: "last (lineSpansOf ks) = last after" using assms(2,3) by simp
  with assms(3) na have il: "i \<noteq> last (lineSpansOf ks)" by (metis last_in_set)
  have nn: "ks ! i \<noteq> Text newline" using k by simp
  from il nn i have ik: "i \<in> set ?kids" by (simp add: cleanedKids_eq)
  have f0: "\<not> shouldRemove (?cs ! i)" using il nn i by (simp add: cleanedStore_flags)
  have nr: "\<not> shouldRemove (os3 ! i)"
  proof
    assume "shouldRemove (os3 ! i)"
    from forEachLine_flags_source [OF whole _ distinct_lineSpansOf lineSpans_cleaned this] i
    have "shouldRemove (?cs ! i) \<or> isNewlineText (ks ! i)
      \<or> trim (getText (ks ! i)) = startMarker \<or> trim (getText (ks ! i)) = endMarker"
      by auto
    with f0 k blank_not_marker [OF assms(5)] show False by simp
  qed
  from ik nr have "i \<in> set (unremoved os3 ?kids)" by (simp add: unremoved_def)
  with r k n3 show ?thesis by blast
qed

theorem blank_spotlighted_line_witness:
  "blockPass
     [Element ''span'' (Some [''line'']) [Text ''// spotlight-start''], Text newline,
      Element ''span'' (Some [''line'']) [Text ''  ''], Text newline,
      Element ''span'' (Some [''line'']) [Text ''z'']]
   = Inr ([\<lparr>node_of = Element ''span'' (Some [''line'']) [Text ''// spotlight-start''],
             shouldRemove = True\<rparr>,
           \<lparr>node_of = Text newline, shouldRemove = True\<rparr>,
           \<lparr>node_of = Element ''span'' (Some [''line'', ''spotlight'']) [Text nbsp],
             shouldRemove = False\<rparr>,
           \<lparr>node_of = Text newline, shouldRemove = False\<rparr>,
           \<lparr>node_of = Element ''span'' (Some [''line'', ''spotlight'']) [Text ''z''],
             shouldRemove = False\<rparr>],
          [2, 3, 4], True)
   \<and> (\<exists>os kids cl cs.
        blockPass
          [Element ''span'' (Some [''line'']) [Text ''// spotlight-start''], Text newline,
           Element ''span'' (Some [''line'']) [Text ''  ''], Text newline,
           Element ''span'' (Some [''line'']) [Text ''z'']]
        = Inr (os, kids, True) \<and> 2 \<in> set kids
        \<and> Element ''span'' (Some [''line'']) [Text ''  ''] = Element ''span'' (Some cl) cs
        \<and> node_of (os ! 2) = Element ''span'' (Some (cl @ [''spotlight''])) [Text nbsp])"
proof -
  let ?ks = "[Element ''span'' (Some [''line'']) [Text ''// spotlight-start''], Text newline,
      Element ''span'' (Some [''line'']) [Text ''  ''], Text newline,
      Element ''span'' (Some [''line'']) [Text ''z'']]"
  have h1: "list_ex hasMarker (filter isLine ?ks)" by code_simp
  have h2: "lineSpansOf ?ks = [0] @ 2 # [4]" by code_simp
  have h3: "[4::nat] \<noteq> []" by simp
  have h4: "forEachLine (cleanedKids ?ks) [0] (cleanedStore ?ks, False)
      = Inr ([\<lparr>node_of = Element ''span'' (Some [''line'']) [Text ''// spotlight-start''],
               shouldRemove = True\<rparr>,
             \<lparr>node_of = Text newline, shouldRemove = True\<rparr>,
             \<lparr>node_of = Element ''span'' (Some [''line'']) [Text ''  ''],
               shouldRemove = False\<rparr>,
             \<lparr>node_of = Text newline, shouldRemove = False\<rparr>,
             \<lparr>node_of = Element ''span'' (Some [''line'']) [Text ''z''],
               shouldRemove = False\<rparr>], True)" by code_simp
  have h5: "trim (getText (?ks ! 2)) = []" by code_simp
  have e: "blockPass ?ks
   = Inr ([\<lparr>node_of = Element ''span'' (Some [''line'']) [Text ''// spotlight-start''],
             shouldRemove = True\<rparr>,
           \<lparr>node_of = Text newline, shouldRemove = True\<rparr>,
           \<lparr>node_of = Element ''span'' (Some [''line'', ''spotlight'']) [Text nbsp],
             shouldRemove = False\<rparr>,
           \<lparr>node_of = Text newline, shouldRemove = False\<rparr>,
           \<lparr>node_of = Element ''span'' (Some [''line'', ''spotlight'']) [Text ''z''],
             shouldRemove = False\<rparr>],
          [2, 3, 4], True)" by code_simp
  have k: "?ks ! 2 = Element ''span'' (Some [''line'']) [Text ''  '']" by simp
  from blank_spotlighted_line [OF h1 h2 h3 h4 h5] e show ?thesis unfolding k by blast
qed

theorem blank_last_line_removed:
  "map_sum id snd
     (forEachLine
        (cleanedKids
           [Element ''span'' (Some [''line'']) [Text ''// spotlight-start''], Text newline,
            Element ''span'' (Some [''line'']) [Text ''b''], Text newline,
            Element ''span'' (Some [''line'']) [Text '' '']])
        [0, 2]
        (cleanedStore
           [Element ''span'' (Some [''line'']) [Text ''// spotlight-start''], Text newline,
            Element ''span'' (Some [''line'']) [Text ''b''], Text newline,
            Element ''span'' (Some [''line'']) [Text '' '']], False))
   = Inr True
   \<and> lineSpansOf
       [Element ''span'' (Some [''line'']) [Text ''// spotlight-start''], Text newline,
        Element ''span'' (Some [''line'']) [Text ''b''], Text newline,
        Element ''span'' (Some [''line'']) [Text '' '']]
     = [0, 2, 4]
   \<and> annotate (Element ''pre'' None [Element ''code'' None
       [Element ''span'' (Some [''line'']) [Text ''// spotlight-start''], Text newline,
        Element ''span'' (Some [''line'']) [Text ''b''], Text newline,
        Element ''span'' (Some [''line'']) [Text '' '']]])
     = Inr (Element ''pre'' None [Element ''code'' (Some [''has-spotlights''])
         [Element ''span'' (Some [''line'', ''spotlight'']) [Text ''b'']]])"
  by code_simp

section \<open>Marker-only lines\<close>

lemma skip_spaces:
  "list_all isSpace a \<Longrightarrow> m \<noteq> [] \<Longrightarrow> \<not> isSpace (hd m) \<Longrightarrow> sublist m (a @ y) \<Longrightarrow> sublist m y"
proof (induction a)
  case Nil
  then show ?case by simp
next
  case (Cons c a)
  from Cons.prems(1,2,3) have "\<not> prefix m (c # a @ y)"
    by (cases m) auto
  with Cons show ?case by (simp add: sublist_Cons_right)
qed

lemma trim_decomp: "\<exists>a b. s = a @ trim s @ b \<and> list_all isSpace a \<and> list_all isSpace b"
proof -
  let ?d = "dropWhile isSpace s"
  have 1: "s = takeWhile isSpace s @ ?d" by simp
  have 2: "rev ?d = takeWhile isSpace (rev ?d) @ dropWhile isSpace (rev ?d)" by simp
  then have "?d = rev (dropWhile isSpace (rev ?d)) @ rev (takeWhile isSpace (rev ?d))"
    by (metis rev_append rev_rev_ident)
  then have "s = takeWhile isSpace s @ trim s @ rev (takeWhile isSpace (rev ?d))"
    using 1 by (simp add: trim_def)
  moreover have "list_all isSpace (takeWhile isSpace s)"
    "list_all isSpace (rev (takeWhile isSpace (rev ?d)))"
    by (auto simp: list_all_iff dest: set_takeWhileD)
  ultimately show ?thesis by blast
qed

lemma within_trim:
  assumes "m \<noteq> []" "\<not> isSpace (hd m)" "\<not> isSpace (last m)" "sublist m s"
  shows "sublist m (trim s)"
proof -
  obtain a b where s: "s = a @ trim s @ b" and a: "list_all isSpace a" and b: "list_all isSpace b"
    using trim_decomp by blast
  have "sublist m (a @ trim s @ b)" by (subst s [symmetric]) (rule assms(4))
  from skip_spaces [OF a assms(1,2) this] have "sublist m (trim s @ b)" .
  then have "sublist (rev m) (rev (trim s @ b))" by (simp only: sublist_rev)
  then have x: "sublist (rev m) (rev b @ rev (trim s))" by simp
  have rb: "list_all isSpace (rev b)" using b by simp
  have rm: "rev m \<noteq> []" "\<not> isSpace (hd (rev m))" using assms(1,3) by (simp_all add: hd_rev)
  from skip_spaces [OF rb rm x] have "sublist (rev m) (rev (trim s))" .
  then show ?thesis by (simp only: sublist_rev)
qed

lemma trim_sublist: "sublist (trim s) s"
proof -
  obtain a b where s: "s = a @ trim s @ b"
    using trim_decomp by blast
  have "sublist (trim s) (a @ trim s @ b)" by (rule sublist_appendI)
  then show ?thesis by (simp only: s [symmetric])
qed

lemma start_marker_only:
  assumes "trim s = startMarker"
  shows "str_includes s ''spotlight-start''"
proof -
  have "sublist ''spotlight-start'' startMarker"
    by (simp add: startMarker_def sublist_Cons_right)
  with assms have "sublist ''spotlight-start'' (trim s)" by simp
  then have "sublist ''spotlight-start'' s"
    using trim_sublist [of s] by (rule sublist_order.order_trans)
  then show ?thesis by (simp add: str_includes_def)
qed

lemma end_marker_only:
  assumes "trim s = endMarker"
  shows "\<not> str_includes s ''spotlight-start''"
proof
  assume "str_includes s ''spotlight-start''"
  then have "sublist ''spotlight-start'' s" by (simp add: str_includes_def)
  then have "sublist ''spotlight-start'' (trim s)"
    by (rule within_trim [rotated 3]) (simp_all add: isSpace_def)
  then have "sublist ''spotlight-start'' endMarker" by (simp only: assms)
  then show False by (simp add: endMarker_def sublist_Cons_right)
qed

section \<open>Toggling\<close>

lemma classify_marker_only:
  assumes "trim (getText (node_of (os ! i))) = startMarker
      \<or> trim (getText (node_of (os ! i))) = endMarker"
  shows "classify kids (os, s) i
     = Inr (markIfNewline (at kids (indexOf kids i + 1)) (mark i os),
            trim (getText (node_of (os ! i))) = startMarker)"
proof -
  have "str_includes (getText (node_of (os ! i))) ''spotlight-start''
      = (trim (getText (node_of (os ! i))) = startMarker)"
    using assms start_marker_only end_marker_only
    by (auto simp: startMarker_def endMarker_def)
  with assms show ?thesis by (simp add: classify_def Let_def)
qed

lemma classify_plain:
  assumes "isLine (node_of (os ! i))"
    "\<not> str_includes (getText (node_of (os ! i))) startMarker"
    "\<not> str_includes (getText (node_of (os ! i))) endMarker"
  shows "classify kids (os, s) i
     = Inr (setNode i
              (if s then (if trim (getText (node_of (os ! i))) = []
                          then setPlaceholder (withClass ''spotlight'' (node_of (os ! i)))
                          else withClass ''spotlight'' (node_of (os ! i)))
               else withClass ''dim'' (node_of (os ! i))) os, s)"
proof -
  from assms(1) obtain cl cs where k: "node_of (os ! i) = Element ''span'' (Some cl) cs"
    by (rule isLine_Element)
  have nm: "trim (getText (node_of (os ! i))) \<noteq> startMarker"
    "trim (getText (node_of (os ! i))) \<noteq> endMarker"
    using assms(2,3) trim_sublist [of "getText (node_of (os ! i))"]
    by (auto simp: str_includes_def)
  with assms(2,3) show ?thesis by (simp add: classify_def Let_def k)
qed

lemma upt_12: "[0..<12] = [0, 1, 2, 3, 4, 5, 6, 7, 8, 9, 10, 11::nat]"
  by code_simp

text \<open>
  Claim C1, as amended. Take a code block whose children are, in order, a plain line
  \<open>A\<close>, a line \<open>S\<close> whose trimmed text is exactly the start marker, plain lines \<open>B\<close> and
  \<open>C\<close>, a line \<open>E\<close> whose trimmed text is exactly the end marker and a plain line \<open>D\<close>,
  each followed by a newline text node; a plain line is a line span whose text holds no
  marker. Let one of the marker lines hold its marker within one text value, and let \<open>D\<close>
  not be blank. Then the two marker lines and the newlines after them are removed, the
  code element gains \<^verbatim>\<open>has-spotlights\<close>, and the remaining lines are \<open>A\<close> with \<^verbatim>\<open>dim\<close>
  appended to its classes, \<open>B\<close> and \<open>C\<close> with \<^verbatim>\<open>spotlight\<close> appended, and \<open>D\<close> with
  \<^verbatim>\<open>dim\<close> appended, in that order. (A blank \<open>B\<close> or \<open>C\<close> has its children replaced by
  the placeholder.)
\<close>

theorem toggle:
  assumes "isLine A" "\<not> str_includes (getText A) startMarker" "\<not> str_includes (getText A) endMarker"
    and "isLine B" "\<not> str_includes (getText B) startMarker" "\<not> str_includes (getText B) endMarker"
    and "isLine C" "\<not> str_includes (getText C) startMarker" "\<not> str_includes (getText C) endMarker"
    and "isLine D" "\<not> str_includes (getText D) startMarker" "\<not> str_includes (getText D) endMarker"
    and "isLine S" "trim (getText S) = startMarker"
    and "isLine E" "trim (getText E) = endMarker"
    and "hasMarker S \<or> hasMarker E"
    and "trim (getText D) \<noteq> []"
  shows "processCode (Element t c
           [A, Text newline, S, Text newline, B, Text newline, C, Text newline,
            E, Text newline, D, Text newline])
       = Inr (Element t (withHasSpotlights c)
           [withClass ''dim'' A, Text newline,
            (if trim (getText B) = [] then setPlaceholder (withClass ''spotlight'' B)
             else withClass ''spotlight'' B), Text newline,
            (if trim (getText C) = [] then setPlaceholder (withClass ''spotlight'' C)
             else withClass ''spotlight'' C), Text newline,
            withClass ''dim'' D, Text newline])"
proof -
  let ?ks = "[A, Text newline, S, Text newline, B, Text newline, C, Text newline,
            E, Text newline, D, Text newline]"
  have ls: "lineSpansOf ?ks = [0, 2, 4, 6, 8, 10]"
    using assms(1,4,7,10,13,15) by (simp add: lineSpansOf_def upt_12)
  have cs: "cleanedStore ?ks = initStore ?ks"
    using assms(18) by (simp add: cleanedStore_def trailingCleanup_def ls)
  have ck: "cleanedKids ?ks = [0, 1, 2, 3, 4, 5, 6, 7, 8, 9, 10, 11]"
    by (simp add: cleanedKids_def cs unremoved_def initStore_def upt_12)
  have nE: "startMarker \<noteq> endMarker" by (simp add: startMarker_def endMarker_def)
  let ?kids = "[0, 1, 2, 3, 4, 5, 6, 7, 8, 9, 10, 11::nat]"
  let ?B' = "if trim (getText B) = [] then setPlaceholder (withClass ''spotlight'' B)
             else withClass ''spotlight'' B"
  let ?C' = "if trim (getText C) = [] then setPlaceholder (withClass ''spotlight'' C)
             else withClass ''spotlight'' C"
  let ?o = "\<lambda>n b. \<lparr>node_of = n, shouldRemove = b\<rparr>"
  let ?n = "Text newline"
  let ?os0 = "[?o A False, ?o ?n False, ?o S False, ?o ?n False, ?o B False, ?o ?n False,
               ?o C False, ?o ?n False, ?o E False, ?o ?n False, ?o D False, ?o ?n False]"
  let ?os1 = "[?o (withClass ''dim'' A) False, ?o ?n False, ?o S False, ?o ?n False,
               ?o B False, ?o ?n False,
               ?o C False, ?o ?n False, ?o E False, ?o ?n False, ?o D False, ?o ?n False]"
  let ?os2 = "[?o (withClass ''dim'' A) False, ?o ?n False, ?o S True, ?o ?n True,
               ?o B False, ?o ?n False,
               ?o C False, ?o ?n False, ?o E False, ?o ?n False, ?o D False, ?o ?n False]"
  let ?os3 = "[?o (withClass ''dim'' A) False, ?o ?n False, ?o S True, ?o ?n True,
               ?o ?B' False, ?o ?n False,
               ?o C False, ?o ?n False, ?o E False, ?o ?n False, ?o D False, ?o ?n False]"
  let ?os4 = "[?o (withClass ''dim'' A) False, ?o ?n False, ?o S True, ?o ?n True,
               ?o ?B' False, ?o ?n False,
               ?o ?C' False, ?o ?n False, ?o E False, ?o ?n False, ?o D False, ?o ?n False]"
  let ?os5 = "[?o (withClass ''dim'' A) False, ?o ?n False, ?o S True, ?o ?n True,
               ?o ?B' False, ?o ?n False,
               ?o ?C' False, ?o ?n False, ?o E True, ?o ?n True, ?o D False, ?o ?n False]"
  let ?os6 = "[?o (withClass ''dim'' A) False, ?o ?n False, ?o S True, ?o ?n True,
               ?o ?B' False, ?o ?n False,
               ?o ?C' False, ?o ?n False, ?o E True, ?o ?n True,
               ?o (withClass ''dim'' D) False, ?o ?n False]"
  have i0: "initStore ?ks = ?os0" by (simp add: initStore_def)
  have c0: "classify ?kids (?os0, False) 0 = Inr (?os1, False)"
    using assms(1-3) by (simp add: classify_plain setNode_def)
  have c1: "classify ?kids (?os1, False) 2 = Inr (?os2, True)"
    using assms(14) by (simp add: classify_marker_only mark_def markIfNewline_def at_def)
  have c2: "classify ?kids (?os2, True) 4 = Inr (?os3, True)"
    using assms(4-6) by (simp add: classify_plain setNode_def)
  have c3: "classify ?kids (?os3, True) 6 = Inr (?os4, True)"
    using assms(7-9) by (simp add: classify_plain setNode_def)
  have c4: "classify ?kids (?os4, True) 8 = Inr (?os5, False)"
    using assms(16) nE by (simp add: classify_marker_only mark_def markIfNewline_def at_def)
  have c5: "classify ?kids (?os5, False) 10 = Inr (?os6, False)"
    using assms(10-12) by (simp add: classify_plain setNode_def)
  have f: "forEachLine ?kids [0, 2, 4, 6, 8, 10] (?os0, False) = Inr (?os6, False)"
    by (simp only: forEachLine.simps c0 c1 c2 c3 c4 c5 sum.case)
  have u: "unremoved ?os6 ?kids = [0, 1, 4, 5, 6, 7, 10, 11]"
    by (simp add: unremoved_def)
  have hm: "list_ex (\<lambda>i. hasMarker (node_of (?os0 ! i))) [0, 2, 4, 6, 8, 10]"
    using assms(17) by auto
  have sp: "spotlightPass [0, 2, 4, 6, 8, 10] ?os0 ?kids
      = Inr (?os6, [0, 1, 4, 5, 6, 7, 10, 11], True)"
    by (simp only: spotlightPass_def Let_def hm if_True f sum.case fst_conv u)
  have "blockPass ?ks = Inr (?os6, [0, 1, 4, 5, 6, 7, 10, 11], True)"
    by (simp only: blockPass_def ls cs ck i0 sp)
  then show ?thesis by (simp add: rebuild_def)
qed

theorem toggle_witness:
  "processCode (Element ''code'' None
     [Element ''span'' (Some [''line'']) [Text ''a''], Text newline,
      Element ''span'' (Some [''line'']) [Text ''// spotlight-start''], Text newline,
      Element ''span'' (Some [''line'']) [Text ''b''], Text newline,
      Element ''span'' (Some [''line'']) [Text ''c''], Text newline,
      Element ''span'' (Some [''line'']) [Text ''// spotlight-end''], Text newline,
      Element ''span'' (Some [''line'']) [Text ''d''], Text newline])
   = Inr (Element ''code'' (Some [''has-spotlights''])
     [Element ''span'' (Some [''line'', ''dim'']) [Text ''a''], Text newline,
      Element ''span'' (Some [''line'', ''spotlight'']) [Text ''b''], Text newline,
      Element ''span'' (Some [''line'', ''spotlight'']) [Text ''c''], Text newline,
      Element ''span'' (Some [''line'', ''dim'']) [Text ''d''], Text newline])"
proof -
  let ?l = "\<lambda>v. Element ''span'' (Some [''line'']) [Text v]"
  have a: "isLine (?l ''a'')" "\<not> str_includes (getText (?l ''a'')) startMarker"
    "\<not> str_includes (getText (?l ''a'')) endMarker" by code_simp+
  have b: "isLine (?l ''b'')" "\<not> str_includes (getText (?l ''b'')) startMarker"
    "\<not> str_includes (getText (?l ''b'')) endMarker" by code_simp+
  have c: "isLine (?l ''c'')" "\<not> str_includes (getText (?l ''c'')) startMarker"
    "\<not> str_includes (getText (?l ''c'')) endMarker" by code_simp+
  have d: "isLine (?l ''d'')" "\<not> str_includes (getText (?l ''d'')) startMarker"
    "\<not> str_includes (getText (?l ''d'')) endMarker" by code_simp+
  have s: "isLine (?l ''// spotlight-start'')" "trim (getText (?l ''// spotlight-start'')) = startMarker"
    by code_simp+
  have e: "isLine (?l ''// spotlight-end'')" "trim (getText (?l ''// spotlight-end'')) = endMarker"
    by code_simp+
  have m: "hasMarker (?l ''// spotlight-start'') \<or> hasMarker (?l ''// spotlight-end'')"
    by code_simp
  have n: "trim (getText (?l ''d'')) \<noteq> []" by code_simp
  have v: "trim (getText (?l ''b'')) \<noteq> []" "trim (getText (?l ''c'')) \<noteq> []" by code_simp+
  from toggle [OF a b c d s e m n, of "''code''" None] v show ?thesis
    by (simp add: withHasSpotlights_def)
qed

theorem blank_last_plain_line_dropped:
  "annotate (Element ''pre'' None [Element ''code'' None
     [Element ''span'' (Some [''line'']) [Text ''a''], Text newline,
      Element ''span'' (Some [''line'']) [Text ''// spotlight-start''], Text newline,
      Element ''span'' (Some [''line'']) [Text ''b''], Text newline,
      Element ''span'' (Some [''line'']) [Text ''c''], Text newline,
      Element ''span'' (Some [''line'']) [Text ''// spotlight-end''], Text newline,
      Element ''span'' (Some [''line'']) [], Text newline]])
   = Inr (Element ''pre'' None [Element ''code'' (Some [''has-spotlights''])
     [Element ''span'' (Some [''line'', ''dim'']) [Text ''a''], Text newline,
      Element ''span'' (Some [''line'', ''spotlight'']) [Text ''b''], Text newline,
      Element ''span'' (Some [''line'', ''spotlight'']) [Text ''c''], Text newline]])"
  by code_simp

section \<open>An inline start marker\<close>

lemma getText_concat: "getText n = concat (textValues n)"
proof (induction n)
  case (Text x)
  then show ?case by simp
next
  case (Element t c ks)
  then have "map getText ks = map (\<lambda>k. concat (textValues k)) ks" by simp
  then have "concat (map getText ks) = concat (map (\<lambda>k. concat (textValues k)) ks)"
    by (rule arg_cong)
  also have "\<dots> = concat (concat (map textValues ks))"
    by (induction ks) simp_all
  finally show ?case by simp
qed

lemma className_transformNode [simp]: "className (transformNode m (Element t c ks)) = c"
  by simp





section \<open>Marker text in the surviving lines\<close>

lemma start_no_border:
  assumes "startMarker = p @ us" "p \<noteq> []" "us \<noteq> []"
  shows "\<not> prefix us (butlast startMarker)"
  using assms by (auto simp: startMarker_def Cons_eq_append_conv)

lemma end_no_border:
  assumes "endMarker = p @ us" "p \<noteq> []" "us \<noteq> []"
  shows "\<not> prefix us (butlast endMarker)"
  using assms by (auto simp: endMarker_def Cons_eq_append_conv)

lemma marker_leftmost:
  assumes "m = startMarker \<or> m = endMarker" "\<not> sublist m a"
  shows "\<not> sublist m (a @ butlast m)"
  using assms(2)
proof (induction a)
  case Nil
  have "length (butlast m) < length m" using assms(1) by (auto simp: startMarker_def endMarker_def)
  then show ?case using sublist_length_le [of m "butlast m"] by auto
next
  case (Cons x a)
  from Cons.prems have na: "\<not> sublist m a" by (simp add: sublist_Cons_right)
  show ?case
  proof
    assume "sublist m ((x # a) @ butlast m)"
    then consider "prefix m ((x # a) @ butlast m)" | "sublist m (a @ butlast m)"
      by (auto simp: sublist_Cons_right)
    then show False
    proof cases
      case 2
      with Cons.IH [OF na] show False by simp
    next
      case 1
      then consider "prefix m (x # a)"
        | us where "m = (x # a) @ us" "prefix us (butlast m)"
        unfolding prefix_append by blast
      then show False
      proof cases
        case 1
        then have "sublist m (x # a)" by (rule prefix_imp_sublist)
        with Cons.prems show False by simp
      next
        case 2
        show False
        proof (cases "us = []")
          case True
          with 2 have "m = x # a" by simp
          with Cons.prems show False by simp
        next
          case False
          from assms(1) show False
          proof
            assume "m = startMarker"
            with 2 have "startMarker = (x # a) @ us" "prefix us (butlast startMarker)"
              by simp_all
            from start_no_border [OF this(1) _ False] this(2) show False by simp
          next
            assume "m = endMarker"
            with 2 have "endMarker = (x # a) @ us" "prefix us (butlast endMarker)"
              by simp_all
            from end_no_border [OF this(1) _ False] this(2) show False by simp
          qed
        qed
      qed
    qed
  qed
qed

lemma replaceMarker_single:
  assumes "m = startMarker \<or> m = endMarker" "\<not> sublist m a"
  shows "replaceMarker m (a @ m @ r) = a @ dropWhile isSpace r"
proof -
  have m: "m \<noteq> []" using assms(1) by (auto simp: startMarker_def endMarker_def)
  have w: "list_all isSpace (takeWhile isSpace r)"
    by (auto simp: list_all_iff dest: set_takeWhileD)
  have b: "dropWhile isSpace r = [] \<or> \<not> isSpace (hd (dropWhile isSpace r))"
    using hd_dropWhile [of isSpace r] by blast
  from replaceMarker_leftmost [OF m marker_leftmost [OF assms] w b]
  show ?thesis by simp
qed

lemma markerFree_sublist: "sublist v s \<Longrightarrow> markerFree s \<Longrightarrow> markerFree v"
  unfolding markerFree_def str_includes_def by (metis sublist_order.order_trans)

lemma lineMarker_cases: "lineMarker k = startMarker \<or> lineMarker k = endMarker"
  by (simp add: lineMarker_def)

lemma holdsOneMarker_includes:
  assumes "holdsOneMarker k us a r ws"
  shows "hasMarker k" "str_includes (getText k) (lineMarker k)"
proof -
  let ?v = "a @ lineMarker k @ r"
  from assms have v: "?v \<in> set (textValues k)" by (simp add: holdsOneMarker_def)
  have s: "sublist (lineMarker k) ?v" by (metis sublist_appendI)
  with lineMarker_cases [of k] have "\<not> markerFree ?v"
    by (auto simp: markerFree_def str_includes_def)
  with v show "hasMarker k" by (auto simp: hasMarker_textValues list_ex_iff)
  from textValues_sublist [OF v] s show "str_includes (getText k) (lineMarker k)"
    unfolding str_includes_def by (metis sublist_order.order_trans)
qed

lemma holdsOneMarker_stripped:
  assumes "holdsOneMarker k us a r ws"
  shows "map (replaceMarker (lineMarker k)) (textValues k) = us @ [a @ dropWhile isSpace r] @ ws"
proof -
  let ?m = "lineMarker k" and ?rest = "concat us @ a @ dropWhile isSpace r @ concat ws"
  from assms have tv: "textValues k = us @ [a @ ?m @ r] @ ws" and mf: "markerFree ?rest"
    by (simp_all add: holdsOneMarker_def)
  have no: "\<not> sublist ?m v" if "sublist v ?rest" for v
    using markerFree_sublist [OF that mf] lineMarker_cases [of k]
    by (auto simp: markerFree_def str_includes_def)
  have a: "\<not> sublist ?m a"
    by (rule no) (metis sublist_appendI)
  have 1: "map (replaceMarker ?m) us = us"
  proof (rule map_idI)
    fix v assume "v \<in> set us"
    then have "sublist v (concat us)" by (rule sublist_concat_self)
    moreover have "sublist (concat us) ?rest" by (rule sublist_append_rightI)
    ultimately have "sublist v ?rest" by (rule sublist_order.order_trans)
    from no [OF this] show "replaceMarker ?m v = v" by (rule replaceMarker_absent)
  qed
  have 2: "map (replaceMarker ?m) ws = ws"
  proof (rule map_idI)
    fix v assume "v \<in> set ws"
    then have "sublist v (concat ws)" by (rule sublist_concat_self)
    moreover have "sublist (concat ws) ((concat us @ a @ dropWhile isSpace r) @ concat ws)"
      by (rule sublist_append_leftI)
    ultimately have "sublist v ((concat us @ a @ dropWhile isSpace r) @ concat ws)"
      by (rule sublist_order.order_trans)
    then have "sublist v ?rest" by simp
    from no [OF this] show "replaceMarker ?m v = v" by (rule replaceMarker_absent)
  qed
  from replaceMarker_single [OF lineMarker_cases a]
  have 3: "replaceMarker ?m (a @ ?m @ r) = a @ dropWhile isSpace r" .
  show ?thesis unfolding tv by (simp only: map_append list.map 1 2 3)
qed

lemma markerFree_values:
  assumes "markerFree (concat vs)"
  shows "list_all markerFree vs"
  using assms sublist_concat_self markerFree_sublist by (fastforce simp: list_all_iff)

text \<open>
  Claim C2, as amended. Take a code block with children \<open>ks\<close> and a position \<open>j\<close> whose
  line span survives in the output. In a block tagged \<^verbatim>\<open>has-spotlights\<close> the input line
  at \<open>j\<close> is not marker-only: marker-only lines do not survive. In a block that is not
  tagged the line is unchanged and none of its text values holds a marker. When the
  text of the input line at \<open>j\<close> holds no marker, the text values of the output line at
  \<open>j\<close> are those of the input line, or the placeholder alone. When the input line at
  \<open>j\<close> holds its marker inside one text value, between \<open>a\<close> and \<open>r\<close>, and the text of
  the line without that occurrence and the white space after it holds no marker, the
  block is tagged and the text values of the output line at \<open>j\<close> are those of the
  input line with that one value replaced by \<open>a\<close> followed by \<open>r\<close> without its leading
  white space. In both cases neither a text value of the output line nor its
  concatenated text contains a marker. The hypotheses are about the line at \<open>j\<close> alone.
  Nothing is claimed for a line with further marker occurrences, for a marker split
  over several text values, or for text outside the line spans of a code block.
\<close>

theorem markers_removed:
  assumes "blockPass ks = Inr (os, kids, hs)"
    and "j \<in> set kids"
    and "isLine (ks ! j) \<or> isLine (node_of (os ! j))"
  shows "processCode (Element t c ks)
           = Inr (Element t (if hs then withHasSpotlights c else c)
                    (map (\<lambda>j. node_of (os ! j)) kids))
       \<and> j < length ks \<and> isLine (ks ! j) \<and> isLine (node_of (os ! j))
       \<and> (hs \<longrightarrow> trim (getText (ks ! j)) \<noteq> startMarker \<and> trim (getText (ks ! j)) \<noteq> endMarker)
       \<and> (\<not> hs \<longrightarrow> node_of (os ! j) = ks ! j \<and> list_all markerFree (textValues (ks ! j)))
       \<and> (markerFree (getText (ks ! j)) \<longrightarrow>
            (textValues (node_of (os ! j)) = textValues (ks ! j)
               \<or> textValues (node_of (os ! j)) = [nbsp])
            \<and> list_all markerFree (textValues (node_of (os ! j)))
            \<and> markerFree (getText (node_of (os ! j))))
       \<and> (holdsOneMarker (ks ! j) us a r ws \<longrightarrow>
            hs \<and> textValues (node_of (os ! j)) = us @ [a @ dropWhile isSpace r] @ ws
            \<and> list_all markerFree (textValues (node_of (os ! j)))
            \<and> markerFree (getText (node_of (os ! j))))"
proof -
  let ?k = "ks ! j" and ?k' = "node_of (os ! j)"
  from surviving_position [OF assms]
  have j: "j < length ks" and lj: "isLine ?k" and lo: "isLine ?k'"
    and hsT: "hs \<Longrightarrow> lineOutcome ?k (os ! j) \<and> \<not> shouldRemove (os ! j)"
    and hsF: "\<not> hs \<Longrightarrow> ?k' = ?k \<and> \<not> hasMarker ?k"
    by (simp_all split: if_splits)
  from lj obtain cl cs where k: "?k = Element ''span'' (Some cl) cs"
    by (rule isLine_Element)
  have c1: "hs \<longrightarrow> trim (getText ?k) \<noteq> startMarker \<and> trim (getText ?k) \<noteq> endMarker"
    using hsT unfolding lineOutcome_def by (auto split: if_splits)
  have c2: "\<not> hs \<longrightarrow> ?k' = ?k \<and> list_all markerFree (textValues ?k)"
    using hsF by (auto simp: hasMarker_textValues list_ex_iff list_all_iff)
  have c3: "(textValues ?k' = textValues ?k \<or> textValues ?k' = [nbsp])
      \<and> list_all markerFree (textValues ?k') \<and> markerFree (getText ?k')"
    if mf: "markerFree (getText ?k)"
  proof -
    from mf have ns: "\<not> str_includes (getText ?k) startMarker"
      and ne: "\<not> str_includes (getText ?k) endMarker" by (simp_all add: markerFree_def)
    have tv: "textValues ?k' = textValues ?k \<or> textValues ?k' = [nbsp]"
    proof (cases hs)
      case False
      with hsF show ?thesis by simp
    next
      case True
      have "trim (getText ?k) \<noteq> startMarker \<and> trim (getText ?k) \<noteq> endMarker"
        using markerFree_sublist [OF trim_sublist mf]
        by (auto simp: markerFree_def str_includes_def)
      with hsT [OF True] ns ne show ?thesis
        unfolding lineOutcome_def by (auto simp: k split: if_splits)
    qed
    then show ?thesis
    proof
      assume e: "textValues ?k' = textValues ?k"
      then have "getText ?k' = getText ?k" by (simp add: getText_concat)
      with e mf markerFree_values [of "textValues ?k"] show ?thesis
        by (simp add: getText_concat)
    next
      assume e: "textValues ?k' = [nbsp]"
      then have "getText ?k' = nbsp" by (simp add: getText_concat)
      with e show ?thesis by (simp add: markerFree_nbsp)
    qed
  qed
  have c4: "hs \<and> textValues ?k' = us @ [a @ dropWhile isSpace r] @ ws
      \<and> list_all markerFree (textValues ?k') \<and> markerFree (getText ?k')"
    if h: "holdsOneMarker ?k us a r ws"
  proof -
    from holdsOneMarker_includes [OF h] have hm: "hasMarker ?k"
      and inc: "str_includes (getText ?k) (lineMarker ?k)" .
    from hm hsF have hs: hs by blast
    from hsT [OF hs] have o: "lineOutcome ?k (os ! j)" and nr: "\<not> shouldRemove (os ! j)"
      by simp_all
    from o nr inc have "?k' = transformNode (lineMarker ?k) ?k"
      unfolding lineOutcome_def lineMarker_def by (auto split: if_splits)
    then have tv: "textValues ?k' = us @ [a @ dropWhile isSpace r] @ ws"
      using holdsOneMarker_stripped [OF h] by (simp add: textValues_transformNode)
    from h have mf: "markerFree (concat (us @ [a @ dropWhile isSpace r] @ ws))"
      by (simp add: holdsOneMarker_def)
    from markerFree_values [OF mf] mf tv hs show ?thesis
      by (simp only: getText_concat simp_thms)
  qed
  from processCode_blockPass [OF assms(1), of t c] j lj lo c1 c2 c3 c4
  show ?thesis by blast
qed

theorem markers_removed_witness:
  "blockPass
     [Element ''span'' (Some [''line'']) [Text ''f(); // spotlight-start''], Text newline,
      Element ''span'' (Some [''line'']) [Text ''g();'']]
   = Inr ([\<lparr>node_of = Element ''span'' (Some [''line'']) [Text ''f(); ''],
             shouldRemove = False\<rparr>,
           \<lparr>node_of = Text newline, shouldRemove = False\<rparr>,
           \<lparr>node_of = Element ''span'' (Some [''line'', ''spotlight'']) [Text ''g();''],
             shouldRemove = False\<rparr>],
          [0, 1, 2], True)
   \<and> holdsOneMarker (Element ''span'' (Some [''line'']) [Text ''f(); // spotlight-start''])
        [] ''f(); '' [] []
   \<and> textValues (Element ''span'' (Some [''line'']) [Text ''f(); '']) = [''f(); '']
   \<and> list_all markerFree (textValues (Element ''span'' (Some [''line'']) [Text ''f(); '']))
   \<and> markerFree (getText (Element ''span'' (Some [''line'']) [Text ''f(); '']))
   \<and> markerFree (getText (Element ''span'' (Some [''line'']) [Text ''g();'']))
   \<and> list_all markerFree
        (textValues (Element ''span'' (Some [''line'', ''spotlight'']) [Text ''g();'']))
   \<and> markerFree (getText (Element ''span'' (Some [''line'', ''spotlight'']) [Text ''g();'']))
   \<and> blockPass [Element ''span'' (Some [''line'']) [Text ''// spotlight-'', Text ''start'']]
     = Inr ([\<lparr>node_of = Element ''span'' (Some [''line''])
                             [Text ''// spotlight-'', Text ''start''],
               shouldRemove = False\<rparr>], [0], False)
   \<and> list_all markerFree
        (textValues (Element ''span'' (Some [''line'']) [Text ''// spotlight-'', Text ''start'']))"
proof -
  let ?ks = "[Element ''span'' (Some [''line'']) [Text ''f(); // spotlight-start''], Text newline,
      Element ''span'' (Some [''line'']) [Text ''g();'']]"
  let ?os = "[\<lparr>node_of = Element ''span'' (Some [''line'']) [Text ''f(); ''],
             shouldRemove = False\<rparr>,
           \<lparr>node_of = Text newline, shouldRemove = False\<rparr>,
           \<lparr>node_of = Element ''span'' (Some [''line'', ''spotlight'']) [Text ''g();''],
             shouldRemove = False\<rparr>]"
  let ?ks' = "[Element ''span'' (Some [''line'']) [Text ''// spotlight-'', Text ''start'']]"
  let ?os' = "[\<lparr>node_of = Element ''span'' (Some [''line''])
                             [Text ''// spotlight-'', Text ''start''],
               shouldRemove = False\<rparr>]"
  have h1: "blockPass ?ks = Inr (?os, [0, 1, 2], True)" by code_simp
  have a2: "(0::nat) \<in> set [0, 1, 2]" and b2: "(2::nat) \<in> set [0, 1, 2]" by simp_all
  have a3: "isLine (?ks ! 0) \<or> isLine (node_of (?os ! 0))"
    and b3: "isLine (?ks ! 2) \<or> isLine (node_of (?os ! 2))" by simp_all
  have a0: "?ks ! 0 = Element ''span'' (Some [''line'']) [Text ''f(); // spotlight-start'']"
    and a0': "node_of (?os ! 0) = Element ''span'' (Some [''line'']) [Text ''f(); '']"
    and b0: "?ks ! 2 = Element ''span'' (Some [''line'']) [Text ''g();'']"
    and b0': "node_of (?os ! 2) = Element ''span'' (Some [''line'', ''spotlight'']) [Text ''g();'']"
    by simp_all
  have a4: "holdsOneMarker (Element ''span'' (Some [''line'']) [Text ''f(); // spotlight-start''])
        [] ''f(); '' [] []" by code_simp
  have b4: "markerFree (getText (Element ''span'' (Some [''line'']) [Text ''g();'']))"
    by code_simp
  have c1: "blockPass ?ks' = Inr (?os', [0], False)" by code_simp
  have c2: "(0::nat) \<in> set [0]" by simp
  have c3: "isLine (?ks' ! 0) \<or> isLine (node_of (?os' ! 0))" by simp
  have c0: "?ks' ! 0 = Element ''span'' (Some [''line'']) [Text ''// spotlight-'', Text ''start'']"
    by simp
  note A = markers_removed [OF h1 a2 a3, where us = "[]" and a = "''f(); ''" and r = "[]"
      and ws = "[]" and t = "''code''" and c = None, unfolded a0 a0']
  note B = markers_removed [OF h1 b2 b3, where us = "[]" and a = "[]" and r = "[]"
      and ws = "[]" and t = "''code''" and c = None, unfolded b0 b0']
  note C = markers_removed [OF c1 c2 c3, where us = "[]" and a = "[]" and r = "[]"
      and ws = "[]" and t = "''code''" and c = None, unfolded c0]
  from A a4 have x: "textValues (Element ''span'' (Some [''line'']) [Text ''f(); ''])
        = [] @ [''f(); '' @ dropWhile isSpace []] @ []"
    and y: "list_all markerFree (textValues (Element ''span'' (Some [''line'']) [Text ''f(); '']))"
    and z: "markerFree (getText (Element ''span'' (Some [''line'']) [Text ''f(); '']))"
    by blast+
  from x have x': "textValues (Element ''span'' (Some [''line'']) [Text ''f(); '']) = [''f(); '']"
    by (simp only: dropWhile.simps append_Nil append_Nil2)
  from B b4 have 2: "list_all markerFree
        (textValues (Element ''span'' (Some [''line'', ''spotlight'']) [Text ''g();'']))
      \<and> markerFree (getText (Element ''span'' (Some [''line'', ''spotlight'']) [Text ''g();'']))"
    by blast
  from C have 3: "list_all markerFree
        (textValues (Element ''span'' (Some [''line'']) [Text ''// spotlight-'', Text ''start'']))"
    by blast
  from h1 a4 x' y z b4 2 c1 3 show ?thesis by blast
qed

theorem marker_text_survives_in_output:
  "annotate (Element ''div'' None
     [Element ''p'' None [Text ''put // spotlight-start above the lines''],
      Element ''pre'' None [Element ''code'' None
        [Element ''span'' (Some [''line'']) [Text ''x(); // spotlight-start // spotlight-end''],
         Text newline,
         Element ''span'' (Some [''line'']) [Text ''y'']]]])
   = Inr (Element ''div'' None
     [Element ''p'' None [Text ''put // spotlight-start above the lines''],
      Element ''pre'' None [Element ''code'' (Some [''has-spotlights''])
        [Element ''span'' (Some [''line'']) [Text ''x(); // spotlight-end''],
         Text newline,
         Element ''span'' (Some [''line'', ''spotlight'']) [Text ''y'']]]])
   \<and> str_includes ''put // spotlight-start above the lines'' startMarker
   \<and> str_includes ''x(); // spotlight-end'' endMarker"
  by code_simp

section \<open>Lines that hold both markers\<close>

text \<open>
  Claim C10, as amended. In a code block in which the marker test finds a marker
  inside a single text value of some line span, take a line span at position \<open>i\<close> that
  is not marker-only and whose concatenated text contains both \<^verbatim>\<open>// spotlight-start\<close>
  and \<^verbatim>\<open>// spotlight-end\<close>. The loop treats it as a start marker: whatever the
  spotlighting state was when the loop reached the line, it is true after it, and the
  line is replaced by \<open>transformNode startMarker\<close> of it. The line stays in the child
  list of the code element; in the output every text value \<open>v\<close> of the line has become
  \<open>replaceMarker startMarker v\<close>, which deletes the leftmost occurrence of the start
  marker with the white space after it and keeps what stands before and after (a value
  \<open>a @ startMarker @ r\<close> with no start marker in \<open>a\<close> becomes \<open>a\<close> followed by \<open>r\<close> without
  its leading white space); and the end marker still occurs in the concatenated text
  of the output line.
\<close>

theorem inline_both_markers:
  assumes "list_ex hasMarker (filter isLine ks)"
    and "lineSpansOf ks = before @ i # after"
    and "trim (getText (ks ! i)) \<noteq> startMarker"
    and "trim (getText (ks ! i)) \<noteq> endMarker"
    and "str_includes (getText (ks ! i)) startMarker"
    and "str_includes (getText (ks ! i)) endMarker"
  shows "(\<exists>os kids os1 s1.
            blockPass ks = Inr (os, kids, True) \<and> i \<in> set kids
          \<and> forEachLine (cleanedKids ks) before (cleanedStore ks, False) = Inr (os1, s1)
          \<and> forEachLine (cleanedKids ks) (before @ [i]) (cleanedStore ks, False)
              = Inr (setNode i (transformNode startMarker (ks ! i)) os1, True)
          \<and> node_of (os ! i) = transformNode startMarker (ks ! i)
          \<and> textValues (node_of (os ! i)) = map (replaceMarker startMarker) (textValues (ks ! i))
          \<and> str_includes (getText (node_of (os ! i))) endMarker)
       \<and> (\<not> sublist startMarker a \<longrightarrow>
            replaceMarker startMarker (a @ startMarker @ r) = a @ dropWhile isSpace r)"
proof -
  let ?kids = "cleanedKids ks" and ?cs = "cleanedStore ks"
  let ?new = "transformNode startMarker (ks ! i)"
  have d: "distinct (before @ i # after)" using distinct_lineSpansOf [of ks] assms(2) by simp
  then have nb: "i \<notin> set before" and na: "i \<notin> set after" by auto
  have "i \<in> set (lineSpansOf ks)" using assms(2) by simp
  then have i: "i < length ks" and li: "isLine (ks ! i)" by (simp_all add: set_lineSpansOf)
  from li obtain cl cs where k: "ks ! i = Element ''span'' (Some cl) cs"
    by (rule isLine_Element)
  have all0: "list_all (\<lambda>j. isLine (node_of (?cs ! j))) (before @ i # after)"
    using lineSpans_cleaned [of ks] assms(2) by simp
  then have "list_all (\<lambda>j. isLine (node_of (?cs ! j))) before" by simp
  from forEachLine_total [OF this] obtain os1 s1 where
    f1: "forEachLine ?kids before (?cs, False) = Inr (os1, s1)" by (metis surj_pair)
  have len1: "length os1 = length ks" using forEachLine_length [OF f1] by simp
  have n1: "node_of (os1 ! i) = ks ! i" using forEachLine_frame [OF f1 nb] i by simp
  let ?os2 = "setNode i ?new os1"
  have c: "classify ?kids (os1, s1) i = Inr (?os2, True)"
    using assms(3-5) n1 by (simp add: classify_def Let_def)
  have f2: "forEachLine ?kids (before @ [i]) (?cs, False) = Inr (?os2, True)"
    by (simp add: forEachLine_append f1 c)
  have all2: "list_all (\<lambda>j. isLine (node_of (?os2 ! j))) after"
  proof -
    have "isLine (node_of (?os2 ! j))" if "j \<in> set after" for j
    proof -
      from all0 that have "isLine (node_of (?cs ! j))" by (simp add: list_all_iff)
      then have "isLine (node_of (os1 ! j))" by (rule forEachLine_isLine [OF f1])
      then show ?thesis by (rule classify_isLine [OF c])
    qed
    then show ?thesis by (simp add: list_all_iff)
  qed
  from forEachLine_total [OF all2] obtain os3 s3 where
    f3: "forEachLine ?kids after (?os2, True) = Inr (os3, s3)" by (metis surj_pair)
  have whole: "forEachLine ?kids (lineSpansOf ks) (?cs, False) = Inr (os3, s3)"
    unfolding assms(2) by (simp add: forEachLine_append f1 c f3)
  have r: "blockPass ks = Inr (os3, unremoved os3 ?kids, True)"
    by (rule blockPass_spotlights [OF assms(1) whole])
  have n3: "node_of (os3 ! i) = ?new"
    using forEachLine_frame [OF f3 na] i len1 by (simp add: node_of_setNode)
  have nblank: "trim (getText (ks ! i)) \<noteq> []"
    using blank_no_includes(1) [of "getText (ks ! i)"] assms(5) by blast
  then have il: "trim (getText (ks ! last (lineSpansOf ks))) = [] \<Longrightarrow> i \<noteq> last (lineSpansOf ks)"
    by auto
  have nn: "ks ! i \<noteq> Text newline" using k by simp
  from il nn i have ik: "i \<in> set ?kids" by (auto simp: cleanedKids_eq)
  have f0: "\<not> shouldRemove (?cs ! i)" using il nn i by (auto simp: cleanedStore_flags)
  have nr: "\<not> shouldRemove (os3 ! i)"
  proof
    assume "shouldRemove (os3 ! i)"
    from forEachLine_flags_source [OF whole _ distinct_lineSpansOf lineSpans_cleaned this] i
    have "shouldRemove (?cs ! i) \<or> isNewlineText (ks ! i)
      \<or> trim (getText (ks ! i)) = startMarker \<or> trim (getText (ks ! i)) = endMarker"
      by auto
    with f0 k assms(3,4) show False by simp
  qed
  from ik nr have mem: "i \<in> set (unremoved os3 ?kids)" by (simp add: unremoved_def)
  from assms(6) have "sublist endMarker ([] @ getText (ks ! i) @ [])"
    by (simp add: str_includes_def)
  from end_survives_tree [OF this]
  have e: "str_includes (getText ?new) endMarker"
    by (simp add: str_includes_def)
  have tv: "textValues ?new = map (replaceMarker startMarker) (textValues (ks ! i))"
    by (rule textValues_transformNode)
  have "\<exists>os kids os1 s1.
            blockPass ks = Inr (os, kids, True) \<and> i \<in> set kids
          \<and> forEachLine (cleanedKids ks) before (cleanedStore ks, False) = Inr (os1, s1)
          \<and> forEachLine (cleanedKids ks) (before @ [i]) (cleanedStore ks, False)
              = Inr (setNode i (transformNode startMarker (ks ! i)) os1, True)
          \<and> node_of (os ! i) = transformNode startMarker (ks ! i)
          \<and> textValues (node_of (os ! i)) = map (replaceMarker startMarker) (textValues (ks ! i))
          \<and> str_includes (getText (node_of (os ! i))) endMarker"
    using r mem f1 f2 n3 tv e by (metis (no_types))
  moreover have "\<not> sublist startMarker a \<longrightarrow>
            replaceMarker startMarker (a @ startMarker @ r) = a @ dropWhile isSpace r"
    using replaceMarker_single [of startMarker a r] by simp
  ultimately show ?thesis by (rule conjI)
qed

theorem inline_both_markers_witness:
  "(\<exists>os kids os1 s1.
      blockPass
        [Element ''span'' (Some [''line'']) [Text ''x(); // spotlight-start // spotlight-end''],
         Text newline, Element ''span'' (Some [''line'']) [Text ''y'']]
      = Inr (os, kids, True) \<and> 0 \<in> set kids
    \<and> forEachLine
        (cleanedKids
          [Element ''span'' (Some [''line'']) [Text ''x(); // spotlight-start // spotlight-end''],
           Text newline, Element ''span'' (Some [''line'']) [Text ''y'']]) []
        (cleanedStore
          [Element ''span'' (Some [''line'']) [Text ''x(); // spotlight-start // spotlight-end''],
           Text newline, Element ''span'' (Some [''line'']) [Text ''y'']], False)
      = Inr (os1, s1)
    \<and> forEachLine
        (cleanedKids
          [Element ''span'' (Some [''line'']) [Text ''x(); // spotlight-start // spotlight-end''],
           Text newline, Element ''span'' (Some [''line'']) [Text ''y'']]) [0]
        (cleanedStore
          [Element ''span'' (Some [''line'']) [Text ''x(); // spotlight-start // spotlight-end''],
           Text newline, Element ''span'' (Some [''line'']) [Text ''y'']], False)
      = Inr (setNode 0 (Element ''span'' (Some [''line'']) [Text ''x(); // spotlight-end'']) os1,
             True)
    \<and> node_of (os ! 0) = Element ''span'' (Some [''line'']) [Text ''x(); // spotlight-end'']
    \<and> textValues (node_of (os ! 0))
        = map (replaceMarker startMarker) [''x(); // spotlight-start // spotlight-end'']
    \<and> str_includes (getText (node_of (os ! 0))) endMarker)
   \<and> replaceMarker startMarker ''x(); // spotlight-start // spotlight-end''
     = ''x(); // spotlight-end''"
proof -
  let ?v = "''x(); // spotlight-start // spotlight-end''"
  let ?L = "Element ''span'' (Some [''line'']) [Text ?v]"
  let ?ks = "[?L, Text newline, Element ''span'' (Some [''line'']) [Text ''y'']]"
  have h1: "list_ex hasMarker (filter isLine ?ks)" by code_simp
  have h2: "lineSpansOf ?ks = [] @ 0 # [2]" by code_simp
  have k: "?ks ! 0 = ?L" by simp
  have t: "getText ?L = ?v" by simp
  have a1: "trim ?v \<noteq> startMarker" by code_simp
  have a2: "trim ?v \<noteq> endMarker" by code_simp
  have a3: "str_includes ?v startMarker" by code_simp
  have a4: "str_includes ?v endMarker" by code_simp
  have h3: "trim (getText (?ks ! 0)) \<noteq> startMarker" by (simp only: k t a1 not_False_eq_True)
  have h4: "trim (getText (?ks ! 0)) \<noteq> endMarker" by (simp only: k t a2 not_False_eq_True)
  have h5: "str_includes (getText (?ks ! 0)) startMarker" by (simp only: k t a3)
  have h6: "str_includes (getText (?ks ! 0)) endMarker" by (simp only: k t a4)
  have p: "\<not> sublist startMarker ''x(); ''" by code_simp
  have q: "''x(); '' @ startMarker @ '' // spotlight-end'' = ?v"
    by (simp add: startMarker_def)
  have d: "dropWhile isSpace '' // spotlight-end'' = ''// spotlight-end''" by code_simp
  note inst = inline_both_markers [OF h1 h2 h3 h4 h5 h6, where a = "''x(); ''"
      and r = "'' // spotlight-end''"]
  from inst p have r: "replaceMarker startMarker ?v = ''x(); // spotlight-end''"
    unfolding q d by simp
  have n: "transformNode startMarker (?ks ! 0)
      = Element ''span'' (Some [''line'']) [Text ''x(); // spotlight-end'']"
    by (simp only: k transformNode.simps(2) transformNode_Text list.map r)
  have tv: "textValues (?ks ! 0) = [?v]" by simp
  from inst have "\<exists>os kids os1 s1.
            blockPass ?ks = Inr (os, kids, True) \<and> 0 \<in> set kids
          \<and> forEachLine (cleanedKids ?ks) [] (cleanedStore ?ks, False) = Inr (os1, s1)
          \<and> forEachLine (cleanedKids ?ks) ([] @ [0]) (cleanedStore ?ks, False)
              = Inr (setNode 0 (transformNode startMarker (?ks ! 0)) os1, True)
          \<and> node_of (os ! 0) = transformNode startMarker (?ks ! 0)
          \<and> textValues (node_of (os ! 0)) = map (replaceMarker startMarker) (textValues (?ks ! 0))
          \<and> str_includes (getText (node_of (os ! 0))) endMarker"
    by (rule conjunct1)
  then show ?thesis unfolding n tv append_Nil using r by (rule conjI)
qed

theorem split_markers_block_unchanged:
  "annotate (Element ''pre'' None [Element ''code'' None
     [Element ''span'' (Some [''line''])
        [Text ''x(); // spotlight-'', Text ''start // spotlight-'', Text ''end''],
      Text newline,
      Element ''span'' (Some [''line'']) [Text ''y'']]])
   = Inr (Element ''pre'' None [Element ''code'' None
     [Element ''span'' (Some [''line''])
        [Text ''x(); // spotlight-'', Text ''start // spotlight-'', Text ''end''],
      Text newline,
      Element ''span'' (Some [''line'']) [Text ''y'']]])
   \<and> getText (Element ''span'' (Some [''line''])
        [Text ''x(); // spotlight-'', Text ''start // spotlight-'', Text ''end''])
     = ''x(); // spotlight-start // spotlight-end''
   \<and> trim ''x(); // spotlight-start // spotlight-end'' \<noteq> startMarker
   \<and> trim ''x(); // spotlight-start // spotlight-end'' \<noteq> endMarker
   \<and> str_includes ''x(); // spotlight-start // spotlight-end'' startMarker
   \<and> str_includes ''x(); // spotlight-start // spotlight-end'' endMarker"
  by code_simp

end
